theory Spec2Isabelle
  imports Main "HOL-Library.AList" "HOL-Library.Sublist"
begin

section \<open>Python values, errors and containers\<close>

text \<open>
  States of an automaton are arbitrary hashable Python objects. The values that occur in
  \<^verbatim>\<open>DFA.py\<close> are \<^verbatim>\<open>None\<close> (the marker of a missing initial state), integers (the
  states \<^verbatim>\<open>minimize\<close> numbers its classes with), strings and the sink object that
  \<^verbatim>\<open>complete\<close> adds. \<open>truthy\<close> is Python's truth value of such an object, which the
  source reads in \<^verbatim>\<open>if initial_state and ...\<close> and \<^verbatim>\<open>if s_prime and ...\<close>.

  Modelled from the spec: class \<^verbatim>\<open>Sink\<close> (\<^verbatim>\<open>pythogic.automaton.misc\<close>) is not among the
  sources. The spec calls its instance a synthetic state that is not accepting; \<open>PySink\<close>
  is such an object, truthy as an object of a class without \<^verbatim>\<open>__bool__\<close> and
  \<^verbatim>\<open>__len__\<close> is.
\<close>

datatype pyval = PyNone | PyInt int | PyStr string | PySink

fun truthy :: "pyval \<Rightarrow> bool" where
  "truthy PyNone = False"
| "truthy (PyInt i) = (i \<noteq> 0)"
| "truthy (PyStr s) = (s \<noteq> [])"
| "truthy PySink = True"

datatype error = ValueError | KeyError | AssertionError

text \<open>
  A \<^verbatim>\<open>dict\<close> is the list of its items in insertion order (keys pairwise distinct);
  \<^verbatim>\<open>k in d\<close> is \<open>map_of d k \<noteq> None\<close>, \<^verbatim>\<open>d[k]\<close> raises \<^verbatim>\<open>KeyError\<close> on a missing key
  and \<^verbatim>\<open>d[k] = v\<close> is \<open>AList.update k v d\<close>.

  A \<^verbatim>\<open>set\<close> or \<^verbatim>\<open>frozenset\<close> that the source iterates over is the list of its elements
  in iteration order: \<^verbatim>\<open>x in s\<close> is \<open>x \<in> set s\<close>, \<^verbatim>\<open>s == t\<close> is \<open>set s = set t\<close>.
  Python leaves the iteration order of a set unspecified; the operations below put a new
  element last.
\<close>

type_synonym ('k, 'v) dict = "('k \<times> 'v) list"

definition dict_get :: "('k, 'v) dict \<Rightarrow> 'k \<Rightarrow> error + 'v" where
  "dict_get d k = (case map_of d k of None \<Rightarrow> Inl KeyError | Some v \<Rightarrow> Inr v)"

definition set_add :: "'a \<Rightarrow> 'a list \<Rightarrow> 'a list" where
  "set_add x s = (if x \<in> set s then s else s @ [x])"

section \<open>The automaton and its constructor\<close>

text \<open>
  Modelled from the spec: class \<^verbatim>\<open>Alphabet\<close> (\<^verbatim>\<open>pythogic.base.Alphabet\<close>) is not among
  the sources. The spec calls it an immutable finite set of symbols with equality; the
  source reads only its attribute \<^verbatim>\<open>symbols\<close>, by membership tests and by iteration.
\<close>

record 'a Alphabet =
  symbols :: "'a list"

record 'a DFA =
  alphabet :: "'a Alphabet"
  states :: "pyval list"
  initial_state :: pyval
  accepting_states :: "pyval list"
  transition_function :: "(pyval, ('a, pyval) dict) dict"

text \<open>\<^verbatim>\<open>DFA._check_input\<close>: every failure is the same \<^verbatim>\<open>ValueError\<close>.\<close>

definition check_input ::
  "'a Alphabet \<Rightarrow> pyval list \<Rightarrow> pyval \<Rightarrow> pyval list \<Rightarrow> (pyval, ('a, pyval) dict) dict
     \<Rightarrow> error + unit" where
  "check_input al sts ini acc tf =
     (if truthy ini \<and> ini \<notin> set sts then Inl ValueError
      else if list_ex (\<lambda>s. s \<notin> set sts) acc then Inl ValueError
      else if list_ex (\<lambda>(s, sym2state).
                s \<notin> set sts \<or>
                list_ex (\<lambda>(sym, next_state). sym \<notin> set (symbols al) \<and> next_state \<notin> set sts)
                  sym2state) tf
        then Inl ValueError
      else Inr ())"

text \<open>\<^verbatim>\<open>DFA.__init__\<close>: the check, then the five attributes.\<close>

definition DFA_init ::
  "'a Alphabet \<Rightarrow> pyval list \<Rightarrow> pyval \<Rightarrow> pyval list \<Rightarrow> (pyval, ('a, pyval) dict) dict
     \<Rightarrow> error + 'a DFA" where
  "DFA_init al sts ini acc tf =
     (case check_input al sts ini acc tf of
        Inl e \<Rightarrow> Inl e
      | Inr _ \<Rightarrow> Inr \<lparr>alphabet = al, states = sts, initial_state = ini,
                      accepting_states = acc, transition_function = tf\<rparr>)"

section \<open>Word acceptance\<close>

text \<open>
  The loop of \<^verbatim>\<open>DFA.word_acceptance\<close>. \<^verbatim>\<open>self.transition_function[current_state]\<close> is a
  plain subscript: it raises \<^verbatim>\<open>KeyError\<close> when the current state has no row.
\<close>

fun word_acceptance_loop ::
  "(pyval, ('a, pyval) dict) dict \<Rightarrow> pyval list \<Rightarrow> pyval \<Rightarrow> 'a list \<Rightarrow> error + bool" where
  "word_acceptance_loop tf acc current_state [] = Inr (current_state \<in> set acc)"
| "word_acceptance_loop tf acc current_state (char # rest) =
     (case dict_get tf current_state of
        Inl e \<Rightarrow> Inl e
      | Inr row \<Rightarrow>
          (case map_of row char of
             None \<Rightarrow> Inr False
           | Some next_state \<Rightarrow> word_acceptance_loop tf acc next_state rest))"

definition word_acceptance :: "'a DFA \<Rightarrow> 'a list \<Rightarrow> error + bool" where
  "word_acceptance dfa word =
     (if \<not> list_all (\<lambda>char. char \<in> set (symbols (alphabet dfa))) word then Inl AssertionError
      else word_acceptance_loop (transition_function dfa) (accepting_states dfa)
             (initial_state dfa) word)"

section \<open>Completion\<close>

text \<open>
  \<^verbatim>\<open>transitions[state][action] = sink\<close> on the deep copy: the row of \<open>state\<close> exists in
  the copy, because the loop runs over the keys of the dict that was copied, so the outer
  subscript cannot raise there.
\<close>

definition dict_set2 ::
  "('k, ('j, 'v) dict) dict \<Rightarrow> 'k \<Rightarrow> 'j \<Rightarrow> 'v \<Rightarrow> ('k, ('j, 'v) dict) dict" where
  "dict_set2 d k j v = AList.map_entry k (AList.update j v) d"

text \<open>The inner loop of \<^verbatim>\<open>DFA.complete\<close>, for one item of the original dict.\<close>

definition complete_row ::
  "pyval \<Rightarrow> 'a list \<Rightarrow> pyval \<Rightarrow> ('a, pyval) dict \<Rightarrow> (pyval, ('a, pyval) dict) dict
     \<Rightarrow> (pyval, ('a, pyval) dict) dict" where
  "complete_row sink syms state sym2state transitions =
     fold (\<lambda>action tr. if map_of sym2state action = None then dict_set2 tr state action sink
                         else tr) syms transitions"

text \<open>
  \<^verbatim>\<open>DFA.complete\<close>. Class \<^verbatim>\<open>Sink\<close> (\<^verbatim>\<open>pythogic.automaton.misc\<close>) is not among the
  sources: the object that \<^verbatim>\<open>Sink()\<close> returns is the argument \<open>sink\<close>.
  \<^verbatim>\<open>deepcopy\<close> of a dict of values is the same dict.
\<close>

definition complete :: "pyval \<Rightarrow> 'a DFA \<Rightarrow> error + 'a DFA" where
  "complete sink dfa =
     (let transitions =
            fold (\<lambda>(state, sym2state) tr.
                    complete_row sink (symbols (alphabet dfa)) state sym2state tr)
              (transition_function dfa) (transition_function dfa)
      in DFA_init (alphabet dfa) (set_add sink (states dfa)) (initial_state dfa)
           (accepting_states dfa) transitions)"

section \<open>Reachability\<close>

text \<open>\<^verbatim>\<open>d.get(k, [])\<close> for a dict of rows.\<close>

definition row_of :: "('k, 'v list) dict \<Rightarrow> 'k \<Rightarrow> 'v list" where
  "row_of d k = (case map_of d k of None \<Rightarrow> [] | Some row \<Rightarrow> row)"

text \<open>
  \<^verbatim>\<open>for a in tf.get(s, []): next_state = tf[s][a]\<close> visits the values of the row of
  \<open>s\<close> in the order of its keys.
\<close>

definition successors :: "(pyval, ('a, pyval) dict) dict \<Rightarrow> pyval \<Rightarrow> pyval list" where
  "successors tf s = map snd (row_of tf s)"

definition reachable_round :: "(pyval, ('a, pyval) dict) dict \<Rightarrow> pyval list \<Rightarrow> pyval list" where
  "reachable_round tf z_current =
     fold (\<lambda>s z_next. fold set_add (successors tf s) z_next) z_current z_current"

definition targets :: "(pyval, ('a, pyval) dict) dict \<Rightarrow> pyval set" where
  "targets tf = (\<Union>(s, row)\<in>set tf. snd ` set row)"

lemma set_set_add: "set (set_add x s) = insert x (set s)"
  by (auto simp: set_add_def)

lemma set_fold_set_add: "set (fold set_add xs z) = set xs \<union> set z"
  by (induction xs arbitrary: z) (auto simp: set_set_add)

lemma successors_targets: "set (successors tf s) \<subseteq> targets tf"
proof (cases "map_of tf s")
  case None
  then show ?thesis by (simp add: successors_def row_of_def)
next
  case (Some row)
  then have "(s, row) \<in> set tf" by (rule map_of_SomeD)
  then have "snd ` set row \<subseteq> targets tf" unfolding targets_def by blast
  with Some show ?thesis by (simp add: successors_def row_of_def)
qed

lemma set_reachable_round_aux:
  "set (fold (\<lambda>s z_next. fold set_add (successors tf s) z_next) xs z)
     = set z \<union> (\<Union>s\<in>set xs. set (successors tf s))"
  by (induction xs arbitrary: z) (auto simp: set_fold_set_add)

lemma set_reachable_round:
  "set (reachable_round tf z) = set z \<union> (\<Union>s\<in>set z. set (successors tf s))"
  by (simp add: reachable_round_def set_reachable_round_aux)

lemma finite_targets: "finite (targets tf)"
  by (auto simp: targets_def)

function reachable_loop ::
  "(pyval, ('a, pyval) dict) dict \<Rightarrow> pyval list \<Rightarrow> pyval list \<Rightarrow> pyval list" where
  "reachable_loop tf z_current z_next =
     (if set z_current = set z_next then z_current
      else reachable_loop tf z_next (reachable_round tf z_next))"
  by pat_completeness auto
termination
proof (relation "measure (\<lambda>(tf, zc, zn). 2 * card (targets tf - set zn)
                             + (if set zc = set zn then 0 else 1))")
  show "wf (measure (\<lambda>(tf, zc, zn). 2 * card (targets tf - set zn)
                             + (if set zc = set zn then 0 else 1)))" by simp
next
  fix tf :: "(pyval, ('a, pyval) dict) dict" and zc zn :: "pyval list"
  assume "set zc \<noteq> set zn"
  let ?zn' = "reachable_round tf zn"
  have sup: "set zn \<subseteq> set ?zn'" and new: "set ?zn' - set zn \<subseteq> targets tf"
    using successors_targets[of tf] by (auto simp: set_reachable_round)
  show "((tf, zn, ?zn'), (tf, zc, zn)) \<in> measure (\<lambda>(tf, zc, zn). 2 * card (targets tf - set zn)
                             + (if set zc = set zn then 0 else 1))"
  proof (cases "set zn = set ?zn'")
    case True
    then show ?thesis using \<open>set zc \<noteq> set zn\<close> by simp
  next
    case False
    with sup new obtain x where "x \<in> targets tf - set zn" "x \<in> set ?zn'" by blast
    then have "targets tf - set ?zn' \<subset> targets tf - set zn" using sup by blast
    then have "card (targets tf - set ?zn') < card (targets tf - set zn)"
      by (intro psubset_card_mono) (auto simp: finite_targets)
    then show ?thesis using False \<open>set zc \<noteq> set zn\<close> by simp
  qed
qed

declare reachable_loop.simps [simp del]


text \<open>\<^verbatim>\<open>d.setdefault(k, {}); d[k][j] = v\<close>.\<close>

definition dict_put2 ::
  "('k, ('j, 'v) dict) dict \<Rightarrow> 'k \<Rightarrow> 'j \<Rightarrow> 'v \<Rightarrow> ('k, ('j, 'v) dict) dict" where
  "dict_put2 d k j v = AList.update k (AList.update j v (row_of d k)) d"

text \<open>
  The loop that builds \<^verbatim>\<open>new_transition_function\<close> in \<^verbatim>\<open>reachable\<close> and in
  \<^verbatim>\<open>coreachable\<close>: the transitions between states of \<open>new_states\<close>.
\<close>

definition restrict_transitions ::
  "(pyval, ('a, pyval) dict) dict \<Rightarrow> pyval list \<Rightarrow> (pyval, ('a, pyval) dict) dict" where
  "restrict_transitions tf new_states =
     fold (\<lambda>s new_tf.
             fold (\<lambda>(a, next_state) new_tf.
                     if next_state \<in> set new_states then dict_put2 new_tf s a next_state
                     else new_tf)
               (row_of tf s) new_tf)
       new_states []"

definition reachable :: "'a DFA \<Rightarrow> error + 'a DFA" where
  "reachable dfa =
     (let new_states = reachable_loop (transition_function dfa) [] [initial_state dfa];
          new_transition_function = restrict_transitions (transition_function dfa) new_states;
          new_final_states = filter (\<lambda>s. s \<in> set (accepting_states dfa)) new_states
      in DFA_init (alphabet dfa) new_states (initial_state dfa) new_final_states
           new_transition_function)"

section \<open>Coreachability and trimming\<close>

definition coreachable_round ::
  "(pyval, ('a, pyval) dict) dict \<Rightarrow> pyval list \<Rightarrow> pyval list \<Rightarrow> pyval list" where
  "coreachable_round tf sts z_current =
     fold (\<lambda>state z_next.
             if list_ex (\<lambda>next_state. next_state \<in> set z_next) (successors tf state)
             then set_add state z_next else z_next)
       sts z_current"

lemma set_coreachable_round_aux:
  "set z \<subseteq> set (fold (\<lambda>state z_next.
             if list_ex (\<lambda>next_state. next_state \<in> set z_next) (successors tf state)
             then set_add state z_next else z_next) xs z)
   \<and> set (fold (\<lambda>state z_next.
             if list_ex (\<lambda>next_state. next_state \<in> set z_next) (successors tf state)
             then set_add state z_next else z_next) xs z) \<subseteq> set z \<union> set xs"
proof (induction xs arbitrary: z)
  case Nil
  show ?case by simp
next
  case (Cons x xs)
  show ?case using Cons[of z] Cons[of "set_add x z"] by (auto simp: set_set_add)
qed

lemma set_coreachable_round:
  "set z \<subseteq> set (coreachable_round tf sts z)"
  "set (coreachable_round tf sts z) \<subseteq> set z \<union> set sts"
  using set_coreachable_round_aux[of z tf sts] by (simp_all add: coreachable_round_def)

function coreachable_loop ::
  "(pyval, ('a, pyval) dict) dict \<Rightarrow> pyval list \<Rightarrow> pyval list \<Rightarrow> pyval list \<Rightarrow> pyval list" where
  "coreachable_loop tf sts z_current z_next =
     (if set z_current = set z_next then z_current
      else coreachable_loop tf sts z_next (coreachable_round tf sts z_next))"
  by pat_completeness auto
termination
proof (relation "measure (\<lambda>(tf, sts, zc, zn). 2 * card (set sts - set zn)
                             + (if set zc = set zn then 0 else 1))")
  show "wf (measure (\<lambda>(tf, sts, zc, zn). 2 * card (set sts - set zn)
                             + (if set zc = set zn then 0 else 1)))" by simp
next
  fix tf :: "(pyval, ('a, pyval) dict) dict" and sts zc zn :: "pyval list"
  assume ne: "set zc \<noteq> set zn"
  let ?zn' = "coreachable_round tf sts zn"
  note sup = set_coreachable_round(1)[of zn tf sts]
  note new = set_coreachable_round(2)[of tf sts zn]
  show "((tf, sts, zn, ?zn'), (tf, sts, zc, zn)) \<in> measure (\<lambda>(tf, sts, zc, zn).
           2 * card (set sts - set zn) + (if set zc = set zn then 0 else 1))"
  proof (cases "set zn = set ?zn'")
    case True
    then show ?thesis using ne by simp
  next
    case False
    with sup new obtain x where "x \<in> set sts - set zn" "x \<in> set ?zn'" by blast
    then have "set sts - set ?zn' \<subset> set sts - set zn" using sup by blast
    then have "card (set sts - set ?zn') < card (set sts - set zn)"
      by (intro psubset_card_mono) auto
    then show ?thesis using False ne by simp
  qed
qed

declare coreachable_loop.simps [simp del]

definition coreachable :: "'a DFA \<Rightarrow> error + 'a DFA" where
  "coreachable dfa =
     (let new_states = coreachable_loop (transition_function dfa) (states dfa) []
                         (accepting_states dfa);
          new_transition_function = restrict_transitions (transition_function dfa) new_states;
          initial_state' = (if initial_state dfa \<notin> set new_states then PyNone
                            else initial_state dfa)
      in DFA_init (alphabet dfa) new_states initial_state' (accepting_states dfa)
           new_transition_function)"

definition trim :: "'a DFA \<Rightarrow> error + 'a DFA" where
  "trim dfa = (case reachable dfa of Inl e \<Rightarrow> Inl e | Inr dfa' \<Rightarrow> coreachable dfa')"


section \<open>Minimization\<close>

text \<open>\<^verbatim>\<open>tf[s][a] if s in tf and a in tf[s] else None\<close>.\<close>

definition lookup_or_none :: "(pyval, ('a, pyval) dict) dict \<Rightarrow> pyval \<Rightarrow> 'a \<Rightarrow> pyval" where
  "lookup_or_none tf s a =
     (case map_of tf s of
        None \<Rightarrow> PyNone
      | Some row \<Rightarrow> (case map_of row a of None \<Rightarrow> PyNone | Some next_state \<Rightarrow> next_state))"

text \<open>\<^verbatim>\<open>tf[s][a]\<close>, two plain subscripts.\<close>

definition dict_get2 :: "('k, ('j, 'v) dict) dict \<Rightarrow> 'k \<Rightarrow> 'j \<Rightarrow> error + 'v" where
  "dict_get2 d k j = (case dict_get d k of Inl e \<Rightarrow> Inl e | Inr row \<Rightarrow> dict_get row j)"

text \<open>
  The generator inside \<^verbatim>\<open>any(...)\<close>:
  \<^verbatim>\<open>any(tf[q][a] == x and pair(x) in z_current for x in dfa.states if q in tf)\<close>,
  where \<open>pair x\<close> is \<^verbatim>\<open>(s_prime, x)\<close> in the first test of the loop body and
  \<^verbatim>\<open>(x, t_prime)\<close> in the second. The subscript \<^verbatim>\<open>tf[q][a]\<close> is evaluated for each
  \<open>x\<close> that passes the filter.
\<close>

fun any_successor ::
  "(pyval, ('a, pyval) dict) dict \<Rightarrow> (pyval \<times> pyval) list \<Rightarrow> pyval \<Rightarrow> 'a
     \<Rightarrow> (pyval \<Rightarrow> pyval \<times> pyval) \<Rightarrow> pyval list \<Rightarrow> error + bool" where
  "any_successor tf z_current q a pair [] = Inr False"
| "any_successor tf z_current q a pair (x # rest) =
     (if map_of tf q = None then any_successor tf z_current q a pair rest
      else (case dict_get2 tf q a of
              Inl e \<Rightarrow> Inl e
            | Inr next_state \<Rightarrow>
                if next_state = x \<and> pair x \<in> set z_current then Inr True
                else any_successor tf z_current q a pair rest))"

text \<open>
  The loop over the symbols for one pair \<open>(s, t)\<close>: \<open>Inr False\<close> when the pair is
  removed from \<^verbatim>\<open>z_next\<close> (followed by \<^verbatim>\<open>break\<close>), \<open>Inr True\<close> when the loop ends
  without removing it.
\<close>

fun keep_pair ::
  "'a DFA \<Rightarrow> (pyval \<times> pyval) list \<Rightarrow> pyval \<Rightarrow> pyval \<Rightarrow> 'a list \<Rightarrow> error + bool" where
  "keep_pair dfa z_current s t [] = Inr True"
| "keep_pair dfa z_current s t (a # rest) =
     (let s_prime = lookup_or_none (transition_function dfa) s a in
      case (if truthy s_prime
            then any_successor (transition_function dfa) z_current t a (\<lambda>t_prime. (s_prime, t_prime))
                   (states dfa)
            else Inr True) of
        Inl e \<Rightarrow> Inl e
      | Inr found1 \<Rightarrow>
          if \<not> found1 then Inr False
          else
            (let t_prime = lookup_or_none (transition_function dfa) t a in
             case (if truthy t_prime
                   then any_successor (transition_function dfa) z_current s a
                          (\<lambda>s_prime. (s_prime, t_prime)) (states dfa)
                   else Inr True) of
               Inl e \<Rightarrow> Inl e
             | Inr found2 \<Rightarrow>
                 if \<not> found2 then Inr False
                 else keep_pair dfa z_current s t rest))"

text \<open>
  One pass of \<^verbatim>\<open>for (s, t) in z_current\<close>: \<open>todo\<close> is what is left of \<^verbatim>\<open>z_current\<close>
  to visit, \<open>z_next\<close> the copy that pairs are removed from.
\<close>

fun refine ::
  "'a DFA \<Rightarrow> (pyval \<times> pyval) list \<Rightarrow> (pyval \<times> pyval) list \<Rightarrow> (pyval \<times> pyval) list
     \<Rightarrow> error + (pyval \<times> pyval) list" where
  "refine dfa z_current [] z_next = Inr z_next"
| "refine dfa z_current ((s, t) # todo) z_next =
     (case keep_pair dfa z_current s t (symbols (alphabet dfa)) of
        Inl e \<Rightarrow> Inl e
      | Inr keep \<Rightarrow>
          refine dfa z_current todo (if keep then z_next else removeAll (s, t) z_next))"

lemma refine_length:
  "refine dfa zc todo zn = Inr zn' \<Longrightarrow>
     length zn' \<le> length zn \<and> (length zn' = length zn \<longrightarrow> zn' = zn)"
proof (induction todo arbitrary: zn)
  case Nil
  then show ?case by simp
next
  case (Cons p todo)
  obtain s t where p: "p = (s, t)" by (cases p)
  from Cons.prems obtain keep where
    r: "refine dfa zc todo (if keep then zn else removeAll (s, t) zn) = Inr zn'"
    by (auto simp: p split: sum.splits)
  define z where "z = (if keep then zn else removeAll (s, t) zn)"
  have le: "length z \<le> length zn"
    by (simp add: z_def)
  have eq: "z = zn" if "length z = length zn"
  proof (cases "keep \<or> (s, t) \<notin> set zn")
    case True
    then show ?thesis by (auto simp: z_def)
  next
    case False
    then have "length z < length zn" by (simp add: z_def length_removeAll_less)
    with that show ?thesis by simp
  qed
  from Cons.IH[of z] r have ih: "length zn' \<le> length z" "length zn' = length z \<Longrightarrow> zn' = z"
    by (simp_all add: z_def)
  show ?case
  proof
    from ih(1) le show "length zn' \<le> length zn" by simp
    show "length zn' = length zn \<longrightarrow> zn' = zn"
    proof
      assume l: "length zn' = length zn"
      with ih(1) le have "length z = length zn" by simp
      with eq ih(2) l show "zn' = zn" by simp
    qed
  qed
qed

function minimize_loop ::
  "'a DFA \<Rightarrow> (pyval \<times> pyval) list \<Rightarrow> (pyval \<times> pyval) list \<Rightarrow> error + (pyval \<times> pyval) list" where
  "minimize_loop dfa z_current z_next =
     (if set z_current = set z_next then Inr z_current
      else (case refine dfa z_next z_next z_next of
              Inl e \<Rightarrow> Inl e
            | Inr z_next' \<Rightarrow> minimize_loop dfa z_next z_next'))"
  by pat_completeness auto
termination
proof (relation "measure (\<lambda>(dfa, zc, zn). 2 * length zn + (if set zc = set zn then 0 else 1))")
  show "wf (measure (\<lambda>(dfa, zc, zn). 2 * length zn + (if set zc = set zn then 0 else 1)))"
    by simp
next
  fix dfa :: "'a DFA" and zc zn zn' :: "(pyval \<times> pyval) list"
  assume ne: "set zc \<noteq> set zn" and r: "refine dfa zn zn zn = Inr zn'"
  from refine_length[OF r] ne
  show "((dfa, zn, zn'), (dfa, zc, zn))
          \<in> measure (\<lambda>(dfa, zc, zn). 2 * length zn + (if set zc = set zn then 0 else 1))"
    by (cases "length zn' = length zn") auto
qed

declare minimize_loop.simps [simp del]

text \<open>
  The pairs that agree on acceptance, in the order of the two nested loops over
  \<^verbatim>\<open>dfa.states\<close>.
\<close>

definition initial_pairs :: "'a DFA \<Rightarrow> (pyval \<times> pyval) list" where
  "initial_pairs dfa =
     fold set_add
       [(state_s, state_t). state_s \<leftarrow> states dfa, state_t \<leftarrow> states dfa,
          (state_s \<in> set (accepting_states dfa) \<and> state_t \<in> set (accepting_states dfa))
          \<or> (state_s \<notin> set (accepting_states dfa) \<and> state_t \<notin> set (accepting_states dfa))]
       []"

text \<open>
  \<^verbatim>\<open>state2equiv_class\<close>: for each pair \<open>(s, t)\<close> the state \<open>t\<close> is added to the set kept
  under \<open>s\<close>; then each set is frozen. A \<^verbatim>\<open>frozenset\<close> is compared and hashed by its
  elements and never iterated here, so it is a set of states.
\<close>

definition state2equiv_class :: "(pyval \<times> pyval) list \<Rightarrow> (pyval, pyval set) dict" where
  "state2equiv_class z_current =
     map (\<lambda>(k, v). (k, set v))
       (fold (\<lambda>(s, t) d. AList.update s (set_add t (row_of d s)) d) z_current [])"

text \<open>
  \<^verbatim>\<open>equivalence_classes\<close> and \<^verbatim>\<open>equiv_class2new_state\<close>: the distinct classes,
  numbered from \<open>0\<close> in the order in which \<^verbatim>\<open>enumerate\<close> visits them.
\<close>

definition equivalence_classes :: "(pyval, pyval set) dict \<Rightarrow> pyval set list" where
  "equivalence_classes s2c = fold set_add (map snd s2c) []"

definition equiv_class2new_state :: "pyval set list \<Rightarrow> (pyval set, pyval) dict" where
  "equiv_class2new_state ecs = zip ecs (map (\<lambda>i. PyInt (int i)) [0..<length ecs])"

text \<open>\<^verbatim>\<open>equiv_class2new_state[state2equiv_class[state]]\<close>.\<close>

definition new_state_of ::
  "(pyval, pyval set) dict \<Rightarrow> (pyval set, pyval) dict \<Rightarrow> pyval \<Rightarrow> error + pyval" where
  "new_state_of s2c c2n state =
     (case dict_get s2c state of Inl e \<Rightarrow> Inl e | Inr ec \<Rightarrow> dict_get c2n ec)"

text \<open>The loops that build \<^verbatim>\<open>new_transition_function\<close> of the quotient.\<close>

fun quotient_row ::
  "(pyval \<Rightarrow> error + pyval) \<Rightarrow> pyval \<Rightarrow> ('a, pyval) dict \<Rightarrow> (pyval, ('a, pyval) dict) dict
     \<Rightarrow> error + (pyval, ('a, pyval) dict) dict" where
  "quotient_row new_of new_state [] new_tf = Inr new_tf"
| "quotient_row new_of new_state ((action, next_state) # rest) new_tf =
     (case new_of next_state of
        Inl e \<Rightarrow> Inl e
      | Inr new_next_state \<Rightarrow>
          quotient_row new_of new_state rest (dict_put2 new_tf new_state action new_next_state))"

fun quotient_transitions ::
  "(pyval \<Rightarrow> error + pyval) \<Rightarrow> (pyval, ('a, pyval) dict) dict
     \<Rightarrow> (pyval, ('a, pyval) dict) dict \<Rightarrow> error + (pyval, ('a, pyval) dict) dict" where
  "quotient_transitions new_of [] new_tf = Inr new_tf"
| "quotient_transitions new_of ((state, row) # rest) new_tf =
     (case new_of state of
        Inl e \<Rightarrow> Inl e
      | Inr new_state \<Rightarrow>
          (case quotient_row new_of new_state row new_tf of
             Inl e \<Rightarrow> Inl e
           | Inr new_tf' \<Rightarrow> quotient_transitions new_of rest new_tf'))"

text \<open>\<^verbatim>\<open>new_final_states\<close>: the new states of the old accepting states.\<close>

fun new_final_states :: "(pyval \<Rightarrow> error + pyval) \<Rightarrow> pyval list \<Rightarrow> pyval list \<Rightarrow> error + pyval list" where
  "new_final_states new_of [] finals = Inr finals"
| "new_final_states new_of (old_state # rest) finals =
     (case new_of old_state of
        Inl e \<Rightarrow> Inl e
      | Inr new_state \<Rightarrow> new_final_states new_of rest (set_add new_state finals))"

definition minimize :: "pyval \<Rightarrow> 'a DFA \<Rightarrow> error + 'a DFA" where
  "minimize sink orig_dfa =
     (case complete sink orig_dfa of
        Inl e \<Rightarrow> Inl e
      | Inr dfa \<Rightarrow>
          (case minimize_loop dfa [] (initial_pairs dfa) of
             Inl e \<Rightarrow> Inl e
           | Inr z_current \<Rightarrow>
               (let s2c = state2equiv_class z_current;
                    c2n = equiv_class2new_state (equivalence_classes s2c);
                    new_of = new_state_of s2c c2n
                in case quotient_transitions new_of (transition_function dfa) [] of
                     Inl e \<Rightarrow> Inl e
                   | Inr new_transition_function \<Rightarrow>
                       (case new_final_states new_of (accepting_states dfa) [] of
                          Inl e \<Rightarrow> Inl e
                        | Inr finals \<Rightarrow>
                            (case new_of (initial_state dfa) of
                               Inl e \<Rightarrow> Inl e
                             | Inr new_initial \<Rightarrow>
                                 DFA_init (alphabet dfa) (map snd c2n) new_initial finals
                                   new_transition_function)))))"

section \<open>The store: the objects that a transformation creates and writes\<close>

text \<open>
  The functions above compute with the values of sets and dicts. Whether a transformation
  changes its argument depends on which objects it writes, so the transformations are
  given a second time over a store of the mutable objects: the dicts from states to rows
  (\<open>dicts\<close>), the rows from symbols to states (\<open>rows\<close>) and the sets of states
  (\<open>sets\<close>). An address is an index into the list of the objects of one kind; creating an
  object appends it, writing an object replaces it in place. References of a running
  program always point to an object; reading an address that was never allocated gives
  the empty object, and the properties are stated for automata whose references are
  allocated (\<open>valid\<close>).

  A \<^verbatim>\<open>DFA\<close> object holds references to its sets and to its transition dict, whose items
  hold references to the rows. Its attributes are assigned in \<^verbatim>\<open>__init__\<close> only.
  \<open>view\<close> reads the values that an object stands for in a store.
\<close>

type_synonym addr = nat

record 'a store =
  dicts :: "(pyval, addr) dict list"
  rows :: "('a, pyval) dict list"
  sets :: "pyval list list"

definition get_dict :: "'a store \<Rightarrow> addr \<Rightarrow> (pyval, addr) dict" where
  "get_dict s a = (if a < length (dicts s) then dicts s ! a else [])"

definition get_row :: "'a store \<Rightarrow> addr \<Rightarrow> ('a, pyval) dict" where
  "get_row s a = (if a < length (rows s) then rows s ! a else [])"

definition get_set :: "'a store \<Rightarrow> addr \<Rightarrow> pyval list" where
  "get_set s a = (if a < length (sets s) then sets s ! a else [])"

definition alloc_dict :: "(pyval, addr) dict \<Rightarrow> 'a store \<Rightarrow> addr \<times> 'a store" where
  "alloc_dict v s = (length (dicts s), s\<lparr>dicts := dicts s @ [v]\<rparr>)"

definition alloc_row :: "('a, pyval) dict \<Rightarrow> 'a store \<Rightarrow> addr \<times> 'a store" where
  "alloc_row v s = (length (rows s), s\<lparr>rows := rows s @ [v]\<rparr>)"

definition alloc_set :: "pyval list \<Rightarrow> 'a store \<Rightarrow> addr \<times> 'a store" where
  "alloc_set v s = (length (sets s), s\<lparr>sets := sets s @ [v]\<rparr>)"

definition write_dict :: "addr \<Rightarrow> (pyval, addr) dict \<Rightarrow> 'a store \<Rightarrow> 'a store" where
  "write_dict a v s = s\<lparr>dicts := (dicts s)[a := v]\<rparr>"

definition write_row :: "addr \<Rightarrow> ('a, pyval) dict \<Rightarrow> 'a store \<Rightarrow> 'a store" where
  "write_row a v s = s\<lparr>rows := (rows s)[a := v]\<rparr>"

definition write_set :: "addr \<Rightarrow> pyval list \<Rightarrow> 'a store \<Rightarrow> 'a store" where
  "write_set a v s = s\<lparr>sets := (sets s)[a := v]\<rparr>"

record 'a DFA_obj =
  alphabet_of :: "'a Alphabet"
  states_ref :: addr
  initial_state_of :: pyval
  accepting_states_ref :: addr
  transition_function_ref :: addr

definition read_tf :: "'a store \<Rightarrow> addr \<Rightarrow> (pyval, ('a, pyval) dict) dict" where
  "read_tf s a = map (\<lambda>(k, r). (k, get_row s r)) (get_dict s a)"

definition view :: "'a store \<Rightarrow> 'a DFA_obj \<Rightarrow> 'a DFA" where
  "view s d =
     \<lparr>alphabet = alphabet_of d, states = get_set s (states_ref d),
      initial_state = initial_state_of d,
      accepting_states = get_set s (accepting_states_ref d),
      transition_function = read_tf s (transition_function_ref d)\<rparr>"

text \<open>
  \<^verbatim>\<open>DFA.__init__\<close>: the check reads the objects; the new automaton object holds the
  references it was given.
\<close>

definition DFA_init_s ::
  "'a Alphabet \<Rightarrow> addr \<Rightarrow> pyval \<Rightarrow> addr \<Rightarrow> addr \<Rightarrow> 'a store \<Rightarrow> (error + 'a DFA_obj) \<times> 'a store" where
  "DFA_init_s al sts ini acc tf s =
     (case check_input al (get_set s sts) ini (get_set s acc) (read_tf s tf) of
        Inl e \<Rightarrow> (Inl e, s)
      | Inr _ \<Rightarrow> (Inr \<lparr>alphabet_of = al, states_ref = sts, initial_state_of = ini,
                       accepting_states_ref = acc, transition_function_ref = tf\<rparr>, s))"

text \<open>
  \<^verbatim>\<open>deepcopy(dfa.transition_function)\<close>: a new dict whose rows are copies of the rows. A
  row that two keys share is copied once (\<open>memo\<close>), as \<^verbatim>\<open>deepcopy\<close> does; the states in
  a row are values and stay as they are.
\<close>

fun deepcopy_items ::
  "(pyval \<times> addr) list \<Rightarrow> (addr \<times> addr) list \<Rightarrow> 'a store \<Rightarrow> (pyval \<times> addr) list \<times> 'a store" where
  "deepcopy_items [] memo s = ([], s)"
| "deepcopy_items ((k, r) # items) memo s =
     (case map_of memo r of
        Some r' \<Rightarrow>
          (let (out, s') = deepcopy_items items memo s in ((k, r') # out, s'))
      | None \<Rightarrow>
          (let (r', s1) = alloc_row (get_row s r) s;
               (out, s') = deepcopy_items items ((r, r') # memo) s1
           in ((k, r') # out, s')))"

definition deepcopy_dict :: "addr \<Rightarrow> 'a store \<Rightarrow> addr \<times> 'a store" where
  "deepcopy_dict a s = (let (out, s1) = deepcopy_items (get_dict s a) [] s in alloc_dict out s1)"

text \<open>
  The loops of \<^verbatim>\<open>complete\<close>, statement by statement: \<open>sym2state\<close> is the row object of
  the argument, read in \<^verbatim>\<open>not action in sym2state\<close>; the assignment
  \<^verbatim>\<open>transitions[state][action] = sink\<close> looks the row up in the dict object
  \<open>transitions\<close> and writes to that row object.
\<close>

fun complete_row_s ::
  "pyval \<Rightarrow> addr \<Rightarrow> pyval \<Rightarrow> addr \<Rightarrow> 'a list \<Rightarrow> 'a store \<Rightarrow> (error + unit) \<times> 'a store" where
  "complete_row_s sink transitions state sym2state [] s = (Inr (), s)"
| "complete_row_s sink transitions state sym2state (action # rest) s =
     (if map_of (get_row s sym2state) action = None
      then (case map_of (get_dict s transitions) state of
              None \<Rightarrow> (Inl KeyError, s)
            | Some r \<Rightarrow>
                complete_row_s sink transitions state sym2state rest
                  (write_row r (AList.update action sink (get_row s r)) s))
      else complete_row_s sink transitions state sym2state rest s)"

fun complete_items_s ::
  "pyval \<Rightarrow> 'a list \<Rightarrow> addr \<Rightarrow> (pyval \<times> addr) list \<Rightarrow> 'a store \<Rightarrow> (error + unit) \<times> 'a store" where
  "complete_items_s sink syms transitions [] s = (Inr (), s)"
| "complete_items_s sink syms transitions ((state, sym2state) # items) s =
     (case complete_row_s sink transitions state sym2state syms s of
        (Inl e, s') \<Rightarrow> (Inl e, s')
      | (Inr _, s') \<Rightarrow> complete_items_s sink syms transitions items s')"

text \<open>
  \<^verbatim>\<open>DFA.complete\<close>: \<^verbatim>\<open>dfa.states.union({sink})\<close> is a new set, \<^verbatim>\<open>dict(transitions)\<close> a
  new dict with the rows of \<open>transitions\<close>; the accepting states are passed on as they
  are.
\<close>

definition complete_s :: "pyval \<Rightarrow> 'a DFA_obj \<Rightarrow> 'a store \<Rightarrow> (error + 'a DFA_obj) \<times> 'a store" where
  "complete_s sink dfa s =
     (let (transitions, s1) = deepcopy_dict (transition_function_ref dfa) s in
      case complete_items_s sink (symbols (alphabet_of dfa)) transitions
             (get_dict s1 (transition_function_ref dfa)) s1 of
        (Inl e, s2) \<Rightarrow> (Inl e, s2)
      | (Inr _, s2) \<Rightarrow>
          (let (sts, s3) = alloc_set (set_add sink (get_set s2 (states_ref dfa))) s2;
               (tf, s4) = alloc_dict (get_dict s3 transitions) s3
           in DFA_init_s (alphabet_of dfa) sts (initial_state_of dfa)
                (accepting_states_ref dfa) tf s4))"

text \<open>
  The store functions of \<^verbatim>\<open>reachable\<close> and \<^verbatim>\<open>coreachable\<close>. The body of the
  \<^verbatim>\<open>while\<close> loop binds \<^verbatim>\<open>z_current\<close> to the object of \<^verbatim>\<open>z_next\<close>, makes the new
  object \<^verbatim>\<open>deepcopy(z_current)\<close> and runs the \<^verbatim>\<open>for\<close> loops, whose only writes are
  \<^verbatim>\<open>z_next.add(...)\<close>: one step allocates the copy and writes to it the value that the
  loops of the value model leave in it. \<^verbatim>\<open>new_transition_function\<close> is a new dict whose
  rows are new dicts (\<open>store_tf\<close>).
\<close>

definition reachable_step_s :: "addr \<Rightarrow> addr \<Rightarrow> 'a store \<Rightarrow> addr \<times> 'a store" where
  "reachable_step_s tf z_current s =
     (let (z_next, s1) = alloc_set (get_set s z_current) s
      in (z_next, write_set z_next (reachable_round (read_tf s1 tf) (get_set s1 z_current)) s1))"

lemma get_row_sets [simp]: "get_row (s\<lparr>sets := x\<rparr>) r = get_row s r"
  by (simp add: get_row_def)

lemma get_dict_sets [simp]: "get_dict (s\<lparr>sets := x\<rparr>) a = get_dict s a"
  by (simp add: get_dict_def)

lemma read_tf_sets [simp]: "read_tf (s\<lparr>sets := x\<rparr>) a = read_tf s a"
  by (simp add: read_tf_def)

lemma get_set_fresh:
  "get_set (s\<lparr>sets := sets s @ [get_set s a]\<rparr>) a = get_set s a"
  by (auto simp: get_set_def nth_append less_Suc_eq)

lemma get_set_other:
  "a \<noteq> length (sets s) \<Longrightarrow> get_set (s\<lparr>sets := sets s @ [v]\<rparr>) a = get_set s a"
  "a \<noteq> length (sets s) \<Longrightarrow> get_set (s\<lparr>sets := (sets s @ [v])[length (sets s) := w]\<rparr>) a = get_set s a"
  "get_set (s\<lparr>sets := (sets s @ [v])[length (sets s) := w]\<rparr>) (length (sets s)) = w"
  "get_set (s\<lparr>sets := sets s @ [w]\<rparr>) (length (sets s)) = w"
  by (auto simp: get_set_def nth_append less_Suc_eq)

lemma reachable_round_empty: "reachable_round tf [] = []"
  by (simp add: reachable_round_def)

lemma reachable_step_s_contents:
  assumes "reachable_step_s tf zc s = (zn, s')"
  shows "read_tf s' tf = read_tf s tf"
    and "get_set s' zn = reachable_round (read_tf s tf) (get_set s zc)"
    and "get_set s' zc = get_set s zc"
proof -
  let ?n = "length (sets s)"
  let ?Z = "get_set s zc"
  let ?s1 = "s\<lparr>sets := sets s @ [?Z]\<rparr>"
  have tf1: "read_tf ?s1 tf = read_tf s tf"
    by simp
  have z1: "get_set ?s1 zc = ?Z"
    by (rule get_set_fresh)
  from assms have zn: "zn = ?n"
    and s': "s' = write_set ?n (reachable_round (read_tf s tf) ?Z) ?s1"
    by (auto simp: reachable_step_s_def alloc_set_def Let_def tf1 z1)
  show "read_tf s' tf = read_tf s tf"
    by (simp add: s' write_set_def)
  show "get_set s' zn = reachable_round (read_tf s tf) (get_set s zc)"
    by (simp add: s' zn write_set_def get_set_other)
  show "get_set s' zc = get_set s zc"
  proof (cases "zc = ?n")
    case False
    then show ?thesis by (simp add: s' write_set_def get_set_other)
  next
    case True
    then have "?Z = []" by (simp add: get_set_def)
    then show ?thesis using True
      by (simp add: s' write_set_def get_set_other reachable_round_empty)
  qed
qed

function reachable_loop_s :: "addr \<Rightarrow> addr \<Rightarrow> addr \<Rightarrow> 'a store \<Rightarrow> addr \<times> 'a store" where
  "reachable_loop_s tf z_current z_next s =
     (if set (get_set s z_current) = set (get_set s z_next) then (z_current, s)
      else (case reachable_step_s tf z_next s of
              (z_next', s') \<Rightarrow> reachable_loop_s tf z_next z_next' s'))"
  by pat_completeness auto
termination
proof (relation "measure (\<lambda>(tf, zc, zn, s).
          2 * card (targets (read_tf s tf) - set (get_set s zn))
          + (if set (get_set s zc) = set (get_set s zn) then 0 else 1))")
  show "wf (measure (\<lambda>(tf, zc, zn, s).
          2 * card (targets (read_tf s tf) - set (get_set s zn))
          + (if set (get_set s zc) = set (get_set s zn) then 0 else 1)))" by simp
next
  fix tf zc zn :: addr and s :: "'a store" and zn' s'
  assume ne: "set (get_set s zc) \<noteq> set (get_set s zn)"
     and p: "(zn', s') = reachable_step_s tf zn s"
  from p have st: "reachable_step_s tf zn s = (zn', s')" by simp
  note c = reachable_step_s_contents[OF st]
  let ?T = "targets (read_tf s tf)"
  let ?Z = "get_set s zn"
  let ?R = "reachable_round (read_tf s tf) ?Z"
  have sup: "set ?Z \<subseteq> set ?R" and new: "set ?R - set ?Z \<subseteq> ?T"
    using successors_targets[of "read_tf s tf"] by (auto simp: set_reachable_round)
  show "((tf, zn, zn', s'), (tf, zc, zn, s)) \<in> measure (\<lambda>(tf, zc, zn, s).
          2 * card (targets (read_tf s tf) - set (get_set s zn))
          + (if set (get_set s zc) = set (get_set s zn) then 0 else 1))"
  proof (cases "set ?Z = set ?R")
    case True
    then show ?thesis using ne by (simp add: c)
  next
    case False
    with sup new obtain y where "y \<in> ?T - set ?Z" "y \<in> set ?R" by blast
    then have "?T - set ?R \<subset> ?T - set ?Z" using sup by blast
    then have "card (?T - set ?R) < card (?T - set ?Z)"
      by (intro psubset_card_mono) (auto simp: finite_targets)
    then show ?thesis using False ne by (simp add: c)
  qed
qed

declare reachable_loop_s.simps [simp del]

text \<open>
  \<^verbatim>\<open>new_transition_function = {}\<close> and the loops that fill it: a new dict, and a new row
  for each key (\<^verbatim>\<open>setdefault(s, {})\<close>).
\<close>

fun store_rows ::
  "(pyval, ('a, pyval) dict) dict \<Rightarrow> 'a store \<Rightarrow> (pyval, addr) dict \<times> 'a store" where
  "store_rows [] s = ([], s)"
| "store_rows ((k, row) # rest) s =
     (let (r, s1) = alloc_row row s; (out, s2) = store_rows rest s1 in ((k, r) # out, s2))"

definition store_tf :: "(pyval, ('a, pyval) dict) dict \<Rightarrow> 'a store \<Rightarrow> addr \<times> 'a store" where
  "store_tf tfv s =
     (let (new_tf, s1) = alloc_dict [] s; (out, s2) = store_rows tfv s1
      in (new_tf, write_dict new_tf out s2))"

definition reachable_s :: "'a DFA_obj \<Rightarrow> 'a store \<Rightarrow> (error + 'a DFA_obj) \<times> 'a store" where
  "reachable_s dfa s =
     (let (z_current0, s1) = alloc_set [] s;
          (z_next0, s2) = alloc_set [] s1;
          s3 = write_set z_next0 (set_add (initial_state_of dfa) (get_set s2 z_next0)) s2;
          (new_states, s4) = reachable_loop_s (transition_function_ref dfa) z_current0 z_next0 s3;
          (new_transition_function, s5) =
             store_tf (restrict_transitions (read_tf s4 (transition_function_ref dfa))
                         (get_set s4 new_states)) s4;
          (new_final_states, s6) =
             alloc_set (filter (\<lambda>st. st \<in> set (get_set s5 (accepting_states_ref dfa)))
                          (get_set s5 new_states)) s5
      in DFA_init_s (alphabet_of dfa) new_states (initial_state_of dfa) new_final_states
           new_transition_function s6)"

definition coreachable_step_s :: "addr \<Rightarrow> addr \<Rightarrow> addr \<Rightarrow> 'a store \<Rightarrow> addr \<times> 'a store" where
  "coreachable_step_s tf sts z_current s =
     (let (z_next, s1) = alloc_set (get_set s z_current) s
      in (z_next,
          write_set z_next
            (coreachable_round (read_tf s1 tf) (get_set s1 sts) (get_set s1 z_current)) s1))"

lemma coreachable_round_empty: "coreachable_round tf sts [] = []"
  unfolding coreachable_round_def by (induction sts) (simp_all add: list_ex_iff)

lemma coreachable_step_s_contents:
  assumes "coreachable_step_s tf sts zc s = (zn, s')"
  shows "get_set s' zc = get_set s zc"
    and "set (get_set s zc) \<subseteq> set (get_set s' zn)"
    and "set (get_set s' zn) \<subseteq> set (get_set s zc) \<union> set (get_set s sts)"
    and "set (get_set s' sts) - set (get_set s' zn) \<subseteq> set (get_set s sts) - set (get_set s zc)"
proof -
  let ?n = "length (sets s)"
  let ?Z = "get_set s zc"
  let ?s1 = "s\<lparr>sets := sets s @ [?Z]\<rparr>"
  let ?S1 = "get_set ?s1 sts"
  let ?R = "coreachable_round (read_tf s tf) ?S1 ?Z"
  have z1: "get_set ?s1 zc = ?Z" by (rule get_set_fresh)
  from assms have zn: "zn = ?n" and s': "s' = write_set ?n ?R ?s1"
    by (auto simp: coreachable_step_s_def alloc_set_def Let_def z1)
  have S1: "set ?S1 \<subseteq> set ?Z \<union> set (get_set s sts)"
  proof (cases "sts = ?n")
    case True
    then have "?S1 = ?Z" by (simp add: get_set_other)
    then show ?thesis by simp
  next
    case False
    then have "?S1 = get_set s sts" by (simp add: get_set_other)
    then show ?thesis by simp
  qed
  have R1: "set ?Z \<subseteq> set ?R" by (rule set_coreachable_round(1))
  have R2: "set ?R \<subseteq> set ?Z \<union> set (get_set s sts)"
    using set_coreachable_round(2)[of "read_tf s tf" ?S1 ?Z] S1 by blast
  have gn: "get_set s' zn = ?R" by (simp add: s' zn write_set_def get_set_other)
  show zc: "get_set s' zc = get_set s zc"
  proof (cases "zc = ?n")
    case False
    then show ?thesis by (simp add: s' write_set_def get_set_other)
  next
    case True
    then have Z: "?Z = []" by (simp add: get_set_def)
    then show ?thesis using True
      by (simp add: s' write_set_def get_set_other coreachable_round_empty)
  qed
  show "set (get_set s zc) \<subseteq> set (get_set s' zn)" using R1 gn by simp
  show "set (get_set s' zn) \<subseteq> set (get_set s zc) \<union> set (get_set s sts)" using R2 gn by simp
  show "set (get_set s' sts) - set (get_set s' zn) \<subseteq> set (get_set s sts) - set (get_set s zc)"
  proof (cases "sts = ?n")
    case False
    then have "get_set s' sts = get_set s sts" by (simp add: s' write_set_def get_set_other)
    with R1 gn show ?thesis by auto
  next
    case True
    then have "get_set s' sts = ?R" by (simp add: s' write_set_def get_set_other)
    with gn show ?thesis by simp
  qed
qed

function coreachable_loop_s ::
  "addr \<Rightarrow> addr \<Rightarrow> addr \<Rightarrow> addr \<Rightarrow> 'a store \<Rightarrow> addr \<times> 'a store" where
  "coreachable_loop_s tf sts z_current z_next s =
     (if set (get_set s z_current) = set (get_set s z_next) then (z_current, s)
      else (case coreachable_step_s tf sts z_next s of
              (z_next', s') \<Rightarrow> coreachable_loop_s tf sts z_next z_next' s'))"
  by pat_completeness auto
termination
proof (relation "measure (\<lambda>(tf, sts, zc, zn, s).
          2 * card (set (get_set s sts) - set (get_set s zn))
          + (if set (get_set s zc) = set (get_set s zn) then 0 else 1))")
  show "wf (measure (\<lambda>(tf, sts, zc, zn, s).
          2 * card (set (get_set s sts) - set (get_set s zn))
          + (if set (get_set s zc) = set (get_set s zn) then 0 else 1)))" by simp
next
  fix tf sts zc zn :: addr and s :: "'a store" and zn' s'
  assume ne: "set (get_set s zc) \<noteq> set (get_set s zn)"
     and p: "(zn', s') = coreachable_step_s tf sts zn s"
  from p have st: "coreachable_step_s tf sts zn s = (zn', s')" by simp
  note c = coreachable_step_s_contents[OF st]
  let ?S = "set (get_set s sts)" and ?Z = "set (get_set s zn)"
  let ?S' = "set (get_set s' sts)" and ?R = "set (get_set s' zn')"
  show "((tf, sts, zn, zn', s'), (tf, sts, zc, zn, s)) \<in> measure (\<lambda>(tf, sts, zc, zn, s).
          2 * card (set (get_set s sts) - set (get_set s zn))
          + (if set (get_set s zc) = set (get_set s zn) then 0 else 1))"
  proof (cases "?Z = ?R")
    case True
    have "card (?S' - ?R) \<le> card (?S - ?Z)"
      by (rule card_mono) (use c(4) in auto)
    then show ?thesis using True ne by (simp add: c(1))
  next
    case False
    with c(2,3) obtain y where "y \<in> ?R" "y \<notin> ?Z" "y \<in> ?S" by blast
    with c(4) have "?S' - ?R \<subset> ?S - ?Z" by blast
    then have "card (?S' - ?R) < card (?S - ?Z)"
      by (intro psubset_card_mono) auto
    then show ?thesis using False ne by (simp add: c(1))
  qed
qed

declare coreachable_loop_s.simps [simp del]

definition coreachable_s :: "'a DFA_obj \<Rightarrow> 'a store \<Rightarrow> (error + 'a DFA_obj) \<times> 'a store" where
  "coreachable_s dfa s =
     (let (z_current0, s1) = alloc_set [] s;
          (z_next_unused, s2) = alloc_set [] s1;
          (z_next0, s3) = alloc_set (get_set s2 (accepting_states_ref dfa)) s2;
          (new_states, s4) =
             coreachable_loop_s (transition_function_ref dfa) (states_ref dfa) z_current0 z_next0 s3;
          (new_transition_function, s5) =
             store_tf (restrict_transitions (read_tf s4 (transition_function_ref dfa))
                         (get_set s4 new_states)) s4;
          initial_state' = (if initial_state_of dfa \<notin> set (get_set s5 new_states) then PyNone
                            else initial_state_of dfa)
      in DFA_init_s (alphabet_of dfa) new_states initial_state' (accepting_states_ref dfa)
           new_transition_function s5)"

definition trim_s :: "'a DFA_obj \<Rightarrow> 'a store \<Rightarrow> (error + 'a DFA_obj) \<times> 'a store" where
  "trim_s dfa s =
     (case reachable_s dfa s of
        (Inl e, s1) \<Rightarrow> (Inl e, s1)
      | (Inr dfa', s1) \<Rightarrow> coreachable_s dfa' s1)"

text \<open>
  \<^verbatim>\<open>minimize\<close> over the store: the call of \<^verbatim>\<open>complete\<close> on its argument, then the
  computation on the completed automaton, and the objects of the result. The sets of
  pairs \<^verbatim>\<open>z_current\<close>, \<^verbatim>\<open>z_next\<close> and the sets inside \<^verbatim>\<open>state2equiv_class\<close> are made
  by \<^verbatim>\<open>set()\<close> and \<^verbatim>\<open>deepcopy\<close> inside the call and never leave it; they are kept as
  values.
\<close>

definition minimize_s :: "pyval \<Rightarrow> 'a DFA_obj \<Rightarrow> 'a store \<Rightarrow> (error + 'a DFA_obj) \<times> 'a store" where
  "minimize_s sink orig_dfa s =
     (case complete_s sink orig_dfa s of
        (Inl e, s1) \<Rightarrow> (Inl e, s1)
      | (Inr dfa, s1) \<Rightarrow>
          (case minimize_loop (view s1 dfa) [] (initial_pairs (view s1 dfa)) of
             Inl e \<Rightarrow> (Inl e, s1)
           | Inr z_current \<Rightarrow>
               (let s2c = state2equiv_class z_current;
                    c2n = equiv_class2new_state (equivalence_classes s2c);
                    new_of = new_state_of s2c c2n
                in case quotient_transitions new_of (read_tf s1 (transition_function_ref dfa)) [] of
                     Inl e \<Rightarrow> (Inl e, s1)
                   | Inr new_tf \<Rightarrow>
                       (let (new_transition_function, s2) = store_tf new_tf s1 in
                        case new_final_states new_of (get_set s2 (accepting_states_ref dfa)) [] of
                          Inl e \<Rightarrow> (Inl e, s2)
                        | Inr finals \<Rightarrow>
                            (let (new_final, s3) = alloc_set finals s2;
                                 (new_sts, s4) = alloc_set (map snd c2n) s3
                             in case new_of (initial_state_of dfa) of
                                  Inl e \<Rightarrow> (Inl e, s4)
                                | Inr new_initial \<Rightarrow>
                                    DFA_init_s (alphabet_of dfa) new_sts new_initial new_final
                                      new_transition_function s4)))))"

text \<open>The references of an automaton object, and those of the items of its dict, are allocated.\<close>

definition valid :: "'a store \<Rightarrow> 'a DFA_obj \<Rightarrow> bool" where
  "valid s d \<longleftrightarrow>
     states_ref d < length (sets s) \<and> accepting_states_ref d < length (sets s) \<and>
     transition_function_ref d < length (dicts s) \<and>
     list_all (\<lambda>(k, r). r < length (rows s)) (get_dict s (transition_function_ref d))"

text \<open>Every object of \<open>s\<close> is in \<open>s'\<close>, at the same address and with the same contents.\<close>

definition kept :: "'a store \<Rightarrow> 'a store \<Rightarrow> bool" where
  "kept s s' \<longleftrightarrow>
     prefix (dicts s) (dicts s') \<and> prefix (rows s) (rows s') \<and> prefix (sets s) (sets s')"

section \<open>Example automata\<close>

text \<open>
  The example of the specification: alphabet \<open>{a, b}\<close>, states \<open>{0, 1, 2}\<close>, initial state
  \<open>0\<close>, accepting \<open>{2}\<close>, transitions \<open>0 -a-> 1\<close>, \<open>1 -b-> 2\<close>, \<open>2 -a-> 2\<close>, \<open>2 -b-> 2\<close>.
\<close>

definition ab :: "char Alphabet" where
  "ab = \<lparr>symbols = [CHR ''a'', CHR ''b'']\<rparr>"

definition spec_example :: "char DFA" where
  "spec_example =
     \<lparr>alphabet = ab, states = [PyInt 0, PyInt 1, PyInt 2], initial_state = PyInt 0,
      accepting_states = [PyInt 2],
      transition_function =
        [(PyInt 0, [(CHR ''a'', PyInt 1)]),
         (PyInt 1, [(CHR ''b'', PyInt 2)]),
         (PyInt 2, [(CHR ''a'', PyInt 2), (CHR ''b'', PyInt 2)])]\<rparr>"

text \<open>Two states, one transition \<open>1 -a-> 2\<close>; state \<open>2\<close> has no row in the dict.\<close>

definition two_states :: "char DFA" where
  "two_states =
     \<lparr>alphabet = ab, states = [PyInt 1, PyInt 2], initial_state = PyInt 1,
      accepting_states = [PyInt 2],
      transition_function = [(PyInt 1, [(CHR ''a'', PyInt 2)])]\<rparr>"

text \<open>The example of the specification with the rows that \<^verbatim>\<open>complete\<close> gives it.\<close>

definition completed_example :: "char DFA" where
  "completed_example =
     \<lparr>alphabet = ab, states = [PyInt 0, PyInt 1, PyInt 2, PySink], initial_state = PyInt 0,
      accepting_states = [PyInt 2],
      transition_function =
        [(PyInt 0, [(CHR ''a'', PyInt 1), (CHR ''b'', PySink)]),
         (PyInt 1, [(CHR ''b'', PyInt 2), (CHR ''a'', PySink)]),
         (PyInt 2, [(CHR ''a'', PyInt 2), (CHR ''b'', PyInt 2)])]\<rparr>"

text \<open>The example of the specification as \<^verbatim>\<open>minimize\<close> returns it.\<close>

definition minimized_example :: "char DFA" where
  "minimized_example =
     \<lparr>alphabet = ab, states = [PyInt 0, PyInt 1, PyInt 2, PyInt 3], initial_state = PyInt 0,
      accepting_states = [PyInt 2],
      transition_function =
        [(PyInt 0, [(CHR ''a'', PyInt 1), (CHR ''b'', PyInt 3)]),
         (PyInt 1, [(CHR ''b'', PyInt 2), (CHR ''a'', PyInt 3)]),
         (PyInt 2, [(CHR ''a'', PyInt 2), (CHR ''b'', PyInt 2)])]\<rparr>"

text \<open>The example of the specification without an initial state.\<close>

definition no_initial_example :: "char DFA" where
  "no_initial_example = spec_example\<lparr>initial_state := PyNone\<rparr>"

text \<open>The example of the specification as objects in a store.\<close>

definition example_store :: "char store" where
  "example_store =
     \<lparr>dicts = [[(PyInt 0, 0), (PyInt 1, 1), (PyInt 2, 2)]],
      rows = [[(CHR ''a'', PyInt 1)], [(CHR ''b'', PyInt 2)],
              [(CHR ''a'', PyInt 2), (CHR ''b'', PyInt 2)]],
      sets = [[PyInt 0, PyInt 1, PyInt 2], [PyInt 2]]\<rparr>"

definition example_obj :: "char DFA_obj" where
  "example_obj = \<lparr>alphabet_of = ab, states_ref = 0, initial_state_of = PyInt 0,
                   accepting_states_ref = 1, transition_function_ref = 0\<rparr>"

section \<open>Auxiliary notions for the properties\<close>

text \<open>
  An automaton whose attributes pass the constructor's check: every \<^verbatim>\<open>DFA\<close> object is
  built by \<^verbatim>\<open>__init__\<close>, so it satisfied \<^verbatim>\<open>_check_input\<close> when it was made.
\<close>

definition constructed :: "'a DFA \<Rightarrow> bool" where
  "constructed dfa \<longleftrightarrow>
     check_input (alphabet dfa) (states dfa) (initial_state dfa) (accepting_states dfa)
       (transition_function dfa) = Inr ()"

text \<open>
  What the inner loop of \<^verbatim>\<open>complete\<close> does to one row, used to state its effect:
  the symbols missing in the original row \<open>sym2state\<close> are added to the copy \<open>row\<close>.
\<close>

definition fill_row ::
  "pyval \<Rightarrow> 'a list \<Rightarrow> ('a, pyval) dict \<Rightarrow> ('a, pyval) dict \<Rightarrow> ('a, pyval) dict" where
  "fill_row sink syms sym2state row =
     fold (\<lambda>action r. if map_of sym2state action = None then AList.update action sink r else r)
       syms row"

text \<open>The automaton that \<^verbatim>\<open>complete\<close> returns, written out.\<close>

definition completed :: "pyval \<Rightarrow> 'a DFA \<Rightarrow> 'a DFA" where
  "completed sink dfa =
     \<lparr>alphabet = alphabet dfa, states = set_add sink (states dfa),
      initial_state = initial_state dfa, accepting_states = accepting_states dfa,
      transition_function =
        map (\<lambda>(state, sym2state).
               (state, fill_row sink (symbols (alphabet dfa)) sym2state sym2state))
          (transition_function dfa)\<rparr>"

section \<open>Properties of the constructor and of word acceptance\<close>

lemma word_acceptance_loop_no_assertion:
  "word_acceptance_loop tf acc q w \<noteq> Inl AssertionError"
  by (induction w arbitrary: q) (auto simp: dict_get_def split: option.splits sum.splits)

lemma check_input_accepting:
  "check_input al sts ini acc tf = Inr u \<Longrightarrow> set acc \<subseteq> set sts"
  by (auto simp: check_input_def list_ex_iff split: if_splits)

text \<open>
  Claim C7. \<^verbatim>\<open>word_acceptance\<close> fails on its first line, the
  \<^verbatim>\<open>assert all(char in self.alphabet.symbols for char in word)\<close>, exactly when some
  symbol of the word is outside the alphabet: the error of that line (Python's
  \<^verbatim>\<open>AssertionError\<close>, the specification's \<^verbatim>\<open>OutOfAlphabet\<close>) is raised if and only if the
  word has such a symbol, whatever else the run does.
\<close>

theorem word_acceptance_out_of_alphabet:
  "word_acceptance dfa w = Inl AssertionError
     \<longleftrightarrow> (\<exists>c\<in>set w. c \<notin> set (symbols (alphabet dfa)))"
  by (auto simp: word_acceptance_def list_all_iff word_acceptance_loop_no_assertion)

text \<open>
  Claim C10. On the empty word, \<^verbatim>\<open>word_acceptance\<close> returns whether the initial state
  is among the accepting states; the result does not depend on the transition function;
  and for an automaton built with initial state \<^verbatim>\<open>None\<close>, where \<^verbatim>\<open>None\<close> is not one of
  its states, it returns \<^verbatim>\<open>False\<close> and raises nothing.
\<close>

theorem word_acceptance_empty_word:
  "word_acceptance dfa [] = Inr (initial_state dfa \<in> set (accepting_states dfa))
   \<and> word_acceptance (dfa\<lparr>transition_function := tf'\<rparr>) [] = word_acceptance dfa []
   \<and> (DFA_init al sts PyNone acc tf = Inr d \<and> PyNone \<notin> set sts
        \<longrightarrow> word_acceptance d [] = Inr False)"
proof -
  have "word_acceptance d [] = Inr False"
    if "DFA_init al sts PyNone acc tf = Inr d" "PyNone \<notin> set sts"
  proof -
    from that(1) obtain u where c: "check_input al sts PyNone acc tf = Inr u"
      and d: "initial_state d = PyNone" "accepting_states d = acc"
      by (auto simp: DFA_init_def split: sum.splits)
    from check_input_accepting[OF c] that(2) have "PyNone \<notin> set acc" by blast
    with d show ?thesis by (simp add: word_acceptance_def)
  qed
  then show ?thesis by (simp add: word_acceptance_def)
qed

theorem word_acceptance_empty_word_witness:
  "word_acceptance two_states [] = Inr False
   \<and> word_acceptance (two_states\<lparr>transition_function := []\<rparr>) [] = word_acceptance two_states []
   \<and> DFA_init ab [PyInt 1] PyNone [PyInt 1] [] =
        Inr \<lparr>alphabet = ab, states = [PyInt 1], initial_state = PyNone,
             accepting_states = [PyInt 1], transition_function = []\<rparr>
   \<and> PyNone \<notin> set [PyInt 1]
   \<and> word_acceptance \<lparr>alphabet = ab, states = [PyInt 1], initial_state = PyNone,
        accepting_states = [PyInt 1], transition_function = []\<rparr> [] = Inr False"
proof -
  have i: "DFA_init ab [PyInt 1] PyNone [PyInt 1] [] =
        Inr \<lparr>alphabet = ab, states = [PyInt 1], initial_state = PyNone,
             accepting_states = [PyInt 1], transition_function = []\<rparr>"
    by (simp add: DFA_init_def check_input_def)
  have n: "PyNone \<notin> set [PyInt 1]" by simp
  have t: "initial_state two_states \<in> set (accepting_states two_states) \<longleftrightarrow> False"
    by (simp add: two_states_def)
  from word_acceptance_empty_word[of two_states "[]" ab "[PyInt 1]" "[PyInt 1]" "[]"
      "\<lparr>alphabet = ab, states = [PyInt 1], initial_state = PyNone,
        accepting_states = [PyInt 1], transition_function = []\<rparr>"] i n t
  show ?thesis by simp
qed

text \<open>
  Claim C2 (the source departs from it). \<^verbatim>\<open>_check_input\<close> joins the two tests on a
  transition with \<^verbatim>\<open>and\<close>, and tests the initial state only when it is truthy. The
  constructor therefore accepts a transition on a symbol \<open>c\<close> outside the alphabet
  \<open>{a, b}\<close>, a transition to a state \<open>7\<close> outside the states, and the initial state \<open>0\<close>
  outside the states.
\<close>

theorem DFA_init_accepts_violations:
  "DFA_init ab [PyInt 1] (PyInt 1) [] [(PyInt 1, [(CHR ''c'', PyInt 1)])] =
     Inr \<lparr>alphabet = ab, states = [PyInt 1], initial_state = PyInt 1, accepting_states = [],
          transition_function = [(PyInt 1, [(CHR ''c'', PyInt 1)])]\<rparr>
   \<and> DFA_init ab [PyInt 1] (PyInt 1) [] [(PyInt 1, [(CHR ''a'', PyInt 7)])] =
     Inr \<lparr>alphabet = ab, states = [PyInt 1], initial_state = PyInt 1, accepting_states = [],
          transition_function = [(PyInt 1, [(CHR ''a'', PyInt 7)])]\<rparr>
   \<and> DFA_init ab [PyInt 1] (PyInt 0) [] [] =
     Inr \<lparr>alphabet = ab, states = [PyInt 1], initial_state = PyInt 0, accepting_states = [],
          transition_function = []\<rparr>"
  by (simp add: DFA_init_def check_input_def ab_def)

text \<open>
  Claim C4 (the source departs from it). The automaton \<open>two_states\<close> passes the
  constructor, its initial state \<open>1\<close> is present and the word \<open>aa\<close> is over its alphabet.
  After the first \<open>a\<close> the run is in state \<open>2\<close>, which has no row in the transition dict:
  \<^verbatim>\<open>self.transition_function[current_state]\<close> raises \<^verbatim>\<open>KeyError\<close> where the claim says
  that the word is rejected with \<^verbatim>\<open>False\<close>.
\<close>

theorem word_acceptance_missing_row_raises:
  "DFA_init ab [PyInt 1, PyInt 2] (PyInt 1) [PyInt 2] [(PyInt 1, [(CHR ''a'', PyInt 2)])]
     = Inr two_states
   \<and> word_acceptance two_states [CHR ''a'', CHR ''a''] = Inl KeyError"
  by (simp add: DFA_init_def check_input_def ab_def two_states_def word_acceptance_def
      dict_get_def)

section \<open>Properties of completion\<close>

lemma map_entry_ident: "AList.map_entry k id d = d"
  by (induction d) auto

lemma map_entry_comp:
  "AList.map_entry k f (AList.map_entry k g d) = AList.map_entry k (f \<circ> g) d"
  by (induction d) auto

lemma complete_row_map_entry:
  "complete_row sink syms state sym2state tr =
     AList.map_entry state (fill_row sink syms sym2state) tr"
  unfolding complete_row_def fill_row_def dict_set2_def
proof (induction syms arbitrary: tr)
  case Nil
  show ?case by (simp add: map_entry_ident[unfolded id_def])
next
  case (Cons a syms)
  show ?case
  proof (cases "map_of sym2state a")
    case None
    then show ?thesis by (simp add: Cons map_entry_comp comp_def)
  next
    case (Some y)
    then show ?thesis by (simp add: Cons)
  qed
qed

lemma map_entry_append_fresh:
  "k \<notin> fst ` set pre \<Longrightarrow> AList.map_entry k f (pre @ xs) = pre @ AList.map_entry k f xs"
  by (induction pre) auto

lemma complete_fold_items:
  "distinct (map fst items) \<Longrightarrow> fst ` set items \<inter> fst ` set pre = {} \<Longrightarrow>
   fold (\<lambda>(state, sym2state) tr. complete_row sink syms state sym2state tr) items (pre @ items)
     = pre @ map (\<lambda>(state, sym2state). (state, fill_row sink syms sym2state sym2state)) items"
proof (induction items arbitrary: pre)
  case Nil
  show ?case by simp
next
  case (Cons it items)
  obtain k row where it: "it = (k, row)" by (cases it)
  from Cons.prems have k: "k \<notin> fst ` set pre" and d: "distinct (map fst items)"
    and kn: "k \<notin> fst ` set items" and dis: "fst ` set items \<inter> fst ` set pre = {}"
    by (auto simp: it)
  have step: "complete_row sink syms k row (pre @ (k, row) # items)
                = (pre @ [(k, fill_row sink syms row row)]) @ items"
    by (simp add: complete_row_map_entry map_entry_append_fresh[OF k])
  have "fst ` set items \<inter> fst ` set (pre @ [(k, fill_row sink syms row row)]) = {}"
    using kn dis by auto
  from Cons.IH[OF d this] show ?case
    by (simp add: it step)
qed

lemma complete_transitions:
  "distinct (map fst tf) \<Longrightarrow>
   fold (\<lambda>(state, sym2state) tr. complete_row sink syms state sym2state tr) tf tf
     = map (\<lambda>(state, sym2state). (state, fill_row sink syms sym2state sym2state)) tf"
  using complete_fold_items[of tf "[]" sink syms] by simp

lemma set_update_subset: "set (AList.update k v al) \<subseteq> insert (k, v) (set al)"
  by (induction al) auto

lemma fill_row_entries:
  "set (fill_row sink syms sym2state row) \<subseteq> set row \<union> {(a, sink) |a. a \<in> set syms}"
  unfolding fill_row_def
proof (induction syms arbitrary: row)
  case Nil show ?case by simp
next
  case (Cons a syms)
  show ?case using Cons[of "AList.update a sink row"] Cons[of row] set_update_subset[of a sink row]
    by (auto split: if_splits)
qed

lemma fill_row_dom:
  "dom (map_of (fill_row sink syms sym2state row))
     = dom (map_of row) \<union> {a \<in> set syms. map_of sym2state a = None}"
  unfolding fill_row_def
  by (induction syms arbitrary: row) (auto simp: update_conv' split: if_splits)

lemma fill_row_total:
  "a \<in> set syms \<Longrightarrow> map_of (fill_row sink syms row row) a \<noteq> None"
  using fill_row_dom[of sink syms row row] by (cases "map_of row a") (auto simp: dom_def)

lemma complete_row_total_noop:
  "\<forall>a\<in>set syms. map_of sym2state a \<noteq> None \<Longrightarrow> complete_row sink syms state sym2state tr = tr"
  unfolding complete_row_def by (induction syms) auto

lemma complete_fold_noop:
  "\<forall>(state, sym2state)\<in>set items. \<forall>a\<in>set syms. map_of sym2state a \<noteq> None \<Longrightarrow>
   fold (\<lambda>(state, sym2state) tr. complete_row sink syms state sym2state tr) items tr = tr"
  by (induction items arbitrary: tr) (auto simp: complete_row_total_noop)

lemma check_input_completed:
  assumes "check_input al sts ini acc tf = Inr ()"
      and "\<forall>(state, row)\<in>set tf'. \<exists>row0. (state, row0) \<in> set tf \<and>
             set row \<subseteq> set row0 \<union> {(a, sink) |a. a \<in> set (symbols al)}"
  shows "check_input al (set_add sink' sts) ini acc tf' = Inr ()"
  using assms unfolding check_input_def list_ex_iff set_set_add
  by (auto split: if_splits) fastforce+


lemma check_input_keys:
  "check_input al sts ini acc tf = Inr u \<Longrightarrow> fst ` set tf \<subseteq> set sts"
  by (fastforce simp: check_input_def list_ex_iff split: if_splits)

lemma map_of_no_key: "k \<notin> fst ` set d \<Longrightarrow> map_of d k = None"
  by (simp add: map_of_eq_None_iff)

lemma completed_constructed:
  assumes "constructed dfa"
  shows "constructed (completed sink dfa)"
proof -
  let ?syms = "symbols (alphabet dfa)"
  let ?tf = "transition_function dfa"
  let ?tf1 = "map (\<lambda>(state, sym2state). (state, fill_row sink ?syms sym2state sym2state)) ?tf"
  have sub: "\<forall>(state, row)\<in>set ?tf1. \<exists>row0. (state, row0) \<in> set ?tf \<and>
               set row \<subseteq> set row0 \<union> {(a, sink) |a. a \<in> set ?syms}"
    using fill_row_entries by fastforce
  from assms have c0: "check_input (alphabet dfa) (states dfa) (initial_state dfa)
                     (accepting_states dfa) ?tf = Inr ()"
    by (simp add: constructed_def)
  have "check_input (alphabet dfa) (set_add sink (states dfa)) (initial_state dfa)
              (accepting_states dfa) ?tf1 = Inr ()"
    by (rule check_input_completed[OF c0 sub])
  then show ?thesis by (simp add: constructed_def completed_def)
qed

lemma complete_result:
  assumes c: "constructed dfa" and d: "distinct (map fst (transition_function dfa))"
  shows "complete sink dfa = Inr (completed sink dfa)"
  using completed_constructed[OF c, of sink]
  by (simp add: complete_def complete_transitions[OF d] DFA_init_def completed_def
      constructed_def)

lemma completed_keys:
  "map fst (transition_function (completed sink dfa)) = map fst (transition_function dfa)"
  by (simp add: completed_def comp_def case_prod_beta)

lemma completed_rows_total:
  "\<forall>(state, sym2state)\<in>set (transition_function (completed sink dfa)).
     \<forall>a\<in>set (symbols (alphabet dfa)). map_of sym2state a \<noteq> None"
  using fill_row_total by (fastforce simp: completed_def)

lemma complete_completed:
  assumes c: "constructed dfa"
  shows "complete s (completed sink dfa)
           = Inr ((completed sink dfa)\<lparr>states := set_add s (states (completed sink dfa))\<rparr>)"
proof -
  let ?d1 = "completed sink dfa"
  have sub1: "\<forall>(state, row)\<in>set (transition_function ?d1).
                \<exists>row0. (state, row0) \<in> set (transition_function ?d1) \<and>
                  set row \<subseteq> set row0 \<union> {(a, sink) |a. a \<in> set (symbols (alphabet ?d1))}"
    by auto
  from completed_constructed[OF c, of sink]
  have c1: "check_input (alphabet ?d1) (states ?d1) (initial_state ?d1) (accepting_states ?d1)
              (transition_function ?d1) = Inr ()"
    by (simp add: constructed_def)
  have c2: "check_input (alphabet ?d1) (set_add s (states ?d1)) (initial_state ?d1)
              (accepting_states ?d1) (transition_function ?d1) = Inr ()"
    by (rule check_input_completed[OF c1 sub1])
  have al: "alphabet ?d1 = alphabet dfa" by (simp add: completed_def)
  have noop: "fold (\<lambda>(state, sym2state) tr.
                      complete_row s (symbols (alphabet ?d1)) state sym2state tr)
                (transition_function ?d1) (transition_function ?d1) = transition_function ?d1"
    unfolding al by (rule complete_fold_noop[OF completed_rows_total])
  show ?thesis
    by (simp add: complete_def noop DFA_init_def c2)
qed

text \<open>
  Claim C3 (the source departs from it). \<^verbatim>\<open>complete\<close> loops over the items of the
  transition dict, so it fills the rows that the dict already has, and only those. For an
  automaton that passed the constructor and a sink that is not one of its states, the
  result has the sink among its states and no row for it: no successor of the sink is
  defined on any symbol, and the subscript \<^verbatim>\<open>transition_function[sink][a]\<close> raises
  \<^verbatim>\<open>KeyError\<close>. The claim says that every pair of a state and a symbol of the result is
  defined and that the sink loops to itself.
\<close>

theorem complete_leaves_sink_without_row:
  assumes c: "constructed dfa" and d: "distinct (map fst (transition_function dfa))"
      and n: "sink \<notin> set (states dfa)"
  shows "\<exists>d1. complete sink dfa = Inr d1 \<and> sink \<in> set (states d1) \<and>
              map_of (transition_function d1) sink = None \<and>
              dict_get2 (transition_function d1) sink a = Inl KeyError"
proof -
  let ?d1 = "completed sink dfa"
  from c have "check_input (alphabet dfa) (states dfa) (initial_state dfa)
                 (accepting_states dfa) (transition_function dfa) = Inr ()"
    by (simp add: constructed_def)
  from check_input_keys[OF this] n have "sink \<notin> set (map fst (transition_function dfa))"
    by auto
  then have "sink \<notin> set (map fst (transition_function ?d1))"
    by (simp add: completed_keys)
  then have "sink \<notin> fst ` set (transition_function ?d1)"
    by simp
  then have row: "map_of (transition_function ?d1) sink = None" by (rule map_of_no_key)
  have "sink \<in> set (states ?d1)" by (simp add: completed_def set_set_add)
  with row complete_result[OF c d, of sink] show ?thesis
    by (simp add: dict_get2_def dict_get_def)
qed

theorem complete_leaves_sink_without_row_witness:
  "constructed spec_example \<and> distinct (map fst (transition_function spec_example)) \<and>
   PySink \<notin> set (states spec_example) \<and>
   complete PySink spec_example = Inr completed_example \<and>
   PySink \<in> set (states completed_example) \<and>
   map_of (transition_function completed_example) PySink = None \<and>
   dict_get2 (transition_function completed_example) PySink (CHR ''a'') = Inl KeyError"
proof -
  have c: "constructed spec_example" by code_simp
  have d: "distinct (map fst (transition_function spec_example))" by code_simp
  have n: "PySink \<notin> set (states spec_example)" by code_simp
  have e: "complete PySink spec_example = Inr completed_example" by code_simp
  from complete_leaves_sink_without_row[OF c d n, of "CHR ''a''"] c d n e show ?thesis
    by auto
qed

text \<open>
  Claim C8. Completion is idempotent. For an automaton that passed the constructor (its
  transition dict having pairwise distinct keys, as every dict has), \<^verbatim>\<open>complete\<close>
  succeeds; completing the result again with the same sink object returns the very same
  automaton; and completing it with any other object \<open>sink2\<close> as the new sink only adds
  \<open>sink2\<close> to the states: alphabet, initial state, accepting states and every transition
  are unchanged, so no transition leads to the new sink and every word is accepted,
  rejected or failed on exactly as before.
\<close>

theorem complete_idempotent:
  assumes c: "constructed dfa" and d: "distinct (map fst (transition_function dfa))"
  shows "\<exists>d1. complete sink dfa = Inr d1 \<and> complete sink d1 = Inr d1 \<and>
           (\<exists>d2. complete sink2 d1 = Inr d2 \<and>
                 alphabet d2 = alphabet d1 \<and>
                 set (states d2) = insert sink2 (set (states d1)) \<and>
                 initial_state d2 = initial_state d1 \<and>
                 accepting_states d2 = accepting_states d1 \<and>
                 transition_function d2 = transition_function d1 \<and>
                 (\<forall>w. word_acceptance d2 w = word_acceptance d1 w))"
proof -
  let ?d1 = "completed sink dfa"
  have first: "complete sink dfa = Inr ?d1" by (rule complete_result[OF c d])
  have "set_add sink (states ?d1) = states ?d1"
    by (simp add: completed_def set_add_def)
  with complete_completed[OF c, of sink sink] have same: "complete sink ?d1 = Inr ?d1"
    by simp
  have "word_acceptance (?d1\<lparr>states := set_add sink2 (states ?d1)\<rparr>) w = word_acceptance ?d1 w"
    for w
    by (simp add: word_acceptance_def)
  with first same complete_completed[OF c, of sink2 sink] show ?thesis
    by (auto simp: set_set_add)
qed

theorem complete_idempotent_witness:
  "constructed spec_example \<and> distinct (map fst (transition_function spec_example)) \<and>
   (\<exists>d1. complete PySink spec_example = Inr d1 \<and> complete PySink d1 = Inr d1 \<and>
           (\<exists>d2. complete (PyInt 7) d1 = Inr d2 \<and>
                 alphabet d2 = alphabet d1 \<and>
                 set (states d2) = insert (PyInt 7) (set (states d1)) \<and>
                 initial_state d2 = initial_state d1 \<and>
                 accepting_states d2 = accepting_states d1 \<and>
                 transition_function d2 = transition_function d1 \<and>
                 (\<forall>w. word_acceptance d2 w = word_acceptance d1 w)))"
proof -
  have c: "constructed spec_example" by code_simp
  have d: "distinct (map fst (transition_function spec_example))" by code_simp
  from complete_idempotent[OF c d, of PySink "PyInt 7"] c d show ?thesis by simp
qed

section \<open>Properties of reachability\<close>

lemma reachable_loop_none:
  "map_of tf PyNone = None \<Longrightarrow> reachable_loop tf [] [PyNone] = [PyNone]"
  by (simp add: reachable_loop.simps reachable_round_def successors_def row_of_def)

text \<open>
  Claim C6 (the source departs from it). \<^verbatim>\<open>reachable\<close> starts its fixpoint with
  \<^verbatim>\<open>z_next.add(dfa.initial_state)\<close>, whatever the initial state is. For an automaton that
  passed the constructor with initial state \<^verbatim>\<open>None\<close>, where \<^verbatim>\<open>None\<close> is not one of its
  states, the result has exactly one state, \<^verbatim>\<open>None\<close> itself, and not the empty set of
  states that the claim states.
\<close>

theorem reachable_without_initial_state:
  assumes c: "constructed dfa" and i: "initial_state dfa = PyNone"
      and n: "PyNone \<notin> set (states dfa)"
  shows "reachable dfa =
           Inr \<lparr>alphabet = alphabet dfa, states = [PyNone], initial_state = PyNone,
                accepting_states = [], transition_function = []\<rparr>"
proof -
  from c have ci: "check_input (alphabet dfa) (states dfa) (initial_state dfa)
                     (accepting_states dfa) (transition_function dfa) = Inr ()"
    by (simp add: constructed_def)
  from check_input_keys[OF ci] n have "PyNone \<notin> fst ` set (transition_function dfa)" by blast
  then have row: "map_of (transition_function dfa) PyNone = None" by (rule map_of_no_key)
  from check_input_accepting[OF ci] n have acc: "PyNone \<notin> set (accepting_states dfa)" by blast
  show ?thesis
    by (simp add: reachable_def i reachable_loop_none[OF row] restrict_transitions_def
        row_of_def row acc DFA_init_def check_input_def)
qed

theorem reachable_without_initial_state_witness:
  "constructed no_initial_example \<and> initial_state no_initial_example = PyNone \<and>
   PyNone \<notin> set (states no_initial_example) \<and>
   reachable no_initial_example =
     Inr \<lparr>alphabet = ab, states = [PyNone], initial_state = PyNone,
          accepting_states = [], transition_function = []\<rparr> \<and>
   states \<lparr>alphabet = ab, states = [PyNone], initial_state = PyNone,
          accepting_states = [], transition_function = ([] :: (pyval, (char, pyval) dict) dict)\<rparr> \<noteq> []"
proof -
  have c: "constructed no_initial_example" by code_simp
  have i: "initial_state no_initial_example = PyNone" by code_simp
  have n: "PyNone \<notin> set (states no_initial_example)" by code_simp
  have a: "alphabet no_initial_example = ab" by (simp add: no_initial_example_def spec_example_def)
  from reachable_without_initial_state[OF c i n] c i n a show ?thesis by simp
qed

section \<open>Properties of minimization\<close>

lemma any_successor_error: "any_successor tf z q a pair xs = Inl e \<Longrightarrow> e = KeyError"
  by (induction xs) (auto simp: dict_get2_def dict_get_def split: if_splits sum.splits option.splits)

lemma keep_pair_error: "keep_pair dfa z s t syms = Inl e \<Longrightarrow> e = KeyError"
  by (induction syms) (auto simp: Let_def split: if_splits sum.splits dest: any_successor_error)

lemma refine_error: "refine dfa zc todo zn = Inl e \<Longrightarrow> e = KeyError"
  by (induction dfa zc todo zn rule: refine.induct)
     (auto split: sum.splits if_splits dest: keep_pair_error)

lemma refine_subset: "refine dfa zc todo zn = Inr zn' \<Longrightarrow> set zn' \<subseteq> set zn"
  by (induction dfa zc todo zn rule: refine.induct) (auto split: sum.splits if_splits)

lemma minimize_loop_error: "minimize_loop dfa zc zn = Inl e \<Longrightarrow> e = KeyError"
proof (induction dfa zc zn rule: minimize_loop.induct)
  case (1 dfa zc zn)
  show ?case
  proof (cases "set zc = set zn")
    case True
    with "1.prems" show ?thesis by (simp add: minimize_loop.simps[of dfa zc zn])
  next
    case False
    show ?thesis
    proof (cases "refine dfa zn zn zn")
      case (Inl e')
      with False "1.prems" refine_error[OF Inl] show ?thesis
        by (simp add: minimize_loop.simps[of dfa zc zn])
    next
      case (Inr zn')
      with False "1.prems" have "minimize_loop dfa zn zn' = Inl e"
        by (simp add: minimize_loop.simps[of dfa zc zn])
      from "1.IH"[OF False Inr this] show ?thesis .
    qed
  qed
qed

lemma minimize_loop_subset: "minimize_loop dfa zc zn = Inr z \<Longrightarrow> set z \<subseteq> set zn"
proof (induction dfa zc zn rule: minimize_loop.induct)
  case (1 dfa zc zn)
  show ?case
  proof (cases "set zc = set zn")
    case True
    with "1.prems" show ?thesis by (simp add: minimize_loop.simps[of dfa zc zn])
  next
    case False
    show ?thesis
    proof (cases "refine dfa zn zn zn")
      case (Inl e')
      with False "1.prems" show ?thesis by (simp add: minimize_loop.simps[of dfa zc zn])
    next
      case (Inr zn')
      with False "1.prems" have "minimize_loop dfa zn zn' = Inr z"
        by (simp add: minimize_loop.simps[of dfa zc zn])
      from "1.IH"[OF False Inr this] refine_subset[OF Inr] show ?thesis by blast
    qed
  qed
qed

lemma initial_pairs_fst: "fst ` set (initial_pairs dfa) \<subseteq> set (states dfa)"
  by (auto simp: initial_pairs_def set_fold_set_add)

lemma state2equiv_class_keys_aux:
  "fst ` set (fold (\<lambda>(s, t) d. AList.update s (set_add t (row_of d s)) d) z d0)
     = fst ` set z \<union> fst ` set d0"
  by (induction z arbitrary: d0) (auto simp: case_prod_beta dom_update[unfolded dom_map_of_conv_image_fst] image_iff)

lemma state2equiv_class_keys: "fst ` set (state2equiv_class z) = fst ` set z"
  using state2equiv_class_keys_aux[of z "[]"] by (force simp: state2equiv_class_def image_iff)

lemma quotient_row_error: "quotient_row new_of ns row ntf = Inl e \<Longrightarrow> \<exists>s. new_of s = Inl e"
  by (induction new_of ns row ntf rule: quotient_row.induct) (auto split: sum.splits)

lemma quotient_transitions_error:
  "quotient_transitions new_of tf ntf = Inl e \<Longrightarrow> \<exists>s. new_of s = Inl e"
  by (induction new_of tf ntf rule: quotient_transitions.induct)
     (auto split: sum.splits dest: quotient_row_error)

lemma new_final_states_error:
  "new_final_states new_of acc fs = Inl e \<Longrightarrow> \<exists>s. new_of s = Inl e"
  by (induction new_of acc fs rule: new_final_states.induct) (auto split: sum.splits)

lemma new_state_of_error: "new_state_of s2c c2n s = Inl e \<Longrightarrow> e = KeyError"
  by (auto simp: new_state_of_def dict_get_def split: sum.splits option.splits)

text \<open>
  Claim C5 (the source departs from it). \<^verbatim>\<open>minimize\<close> ends with
  \<^verbatim>\<open>equiv_class2new_state[state2equiv_class[dfa.initial_state]]\<close>. For an automaton that
  passed the constructor with initial state \<^verbatim>\<open>None\<close>, where \<^verbatim>\<open>None\<close> is not one of its
  states, no pair of the relation mentions \<^verbatim>\<open>None\<close>, so the subscript raises
  \<^verbatim>\<open>KeyError\<close>: \<^verbatim>\<open>minimize\<close> fails on every automaton without an initial state, where
  the claim says that it returns an automaton.
\<close>

theorem minimize_without_initial_state:
  assumes c: "constructed dfa" and d: "distinct (map fst (transition_function dfa))"
      and i: "initial_state dfa = PyNone" and n: "PyNone \<notin> set (states dfa)"
      and s: "sink \<noteq> PyNone"
  shows "minimize sink dfa = Inl KeyError"
proof -
  let ?d1 = "completed sink dfa"
  have comp: "complete sink dfa = Inr ?d1" by (rule complete_result[OF c d])
  have st: "PyNone \<notin> set (states ?d1)" using n s by (simp add: completed_def set_set_add)
  have ini: "initial_state ?d1 = PyNone" by (simp add: completed_def i)
  show ?thesis
  proof (cases "minimize_loop ?d1 [] (initial_pairs ?d1)")
    case (Inl e)
    with minimize_loop_error[OF Inl] comp show ?thesis by (simp add: minimize_def)
  next
    case (Inr z)
    define s2c where "s2c = state2equiv_class z"
    define c2n where "c2n = equiv_class2new_state (equivalence_classes s2c)"
    from minimize_loop_subset[OF Inr] initial_pairs_fst[of ?d1] st
    have "PyNone \<notin> fst ` set z" by blast
    then have "map_of s2c PyNone = None"
      by (simp add: s2c_def state2equiv_class_keys map_of_no_key)
    then have last: "new_state_of s2c c2n PyNone = Inl KeyError"
      by (simp add: new_state_of_def dict_get_def)
    let ?new_of = "new_state_of s2c c2n"
    have m: "minimize sink dfa =
        (case quotient_transitions ?new_of (transition_function ?d1) [] of
           Inl e \<Rightarrow> Inl e
         | Inr new_transition_function \<Rightarrow>
             (case new_final_states ?new_of (accepting_states ?d1) [] of
                Inl e \<Rightarrow> Inl e
              | Inr finals \<Rightarrow>
                  (case ?new_of PyNone of
                     Inl e \<Rightarrow> Inl e
                   | Inr new_initial \<Rightarrow>
                       DFA_init (alphabet ?d1) (map snd c2n) new_initial finals
                         new_transition_function)))"
      by (simp add: minimize_def comp Inr Let_def s2c_def c2n_def ini cong: sum.case_cong)
    show ?thesis
    proof (cases "quotient_transitions ?new_of (transition_function ?d1) []")
      case (Inl e)
      from quotient_transitions_error[OF Inl] new_state_of_error have "e = KeyError" by blast
      with Inl m show ?thesis by simp
    next
      case qt: (Inr ntf)
      show ?thesis
      proof (cases "new_final_states ?new_of (accepting_states ?d1) []")
        case (Inl e)
        from new_final_states_error[OF Inl] new_state_of_error have "e = KeyError" by blast
        with Inl qt m show ?thesis by simp
      next
        case (Inr fs)
        with qt m last show ?thesis by simp
      qed
    qed
  qed
qed

theorem minimize_without_initial_state_witness:
  "constructed no_initial_example \<and>
   distinct (map fst (transition_function no_initial_example)) \<and>
   initial_state no_initial_example = PyNone \<and>
   PyNone \<notin> set (states no_initial_example) \<and> PySink \<noteq> PyNone \<and>
   minimize PySink no_initial_example = Inl KeyError"
proof -
  have c: "constructed no_initial_example" by code_simp
  have d: "distinct (map fst (transition_function no_initial_example))" by code_simp
  have i: "initial_state no_initial_example = PyNone" by code_simp
  have n: "PyNone \<notin> set (states no_initial_example)" by code_simp
  have s: "PySink \<noteq> PyNone" by simp
  from minimize_without_initial_state[OF c d i n s] c d i n show ?thesis by simp
qed

text \<open>
  Claim C1 (the source departs from it). The example of the specification passes the
  constructor and \<^verbatim>\<open>minimize\<close> returns an automaton for it. On the word \<open>ba\<close>, which is
  over the alphabet, the example answers \<^verbatim>\<open>False\<close> (state \<open>0\<close> has no transition on
  \<open>b\<close>); the minimized automaton moves on \<open>b\<close> to the class of the sink, which has no row
  in its transition dict, and raises \<^verbatim>\<open>KeyError\<close> on \<open>a\<close>. The two runs do not give the
  same boolean result.
\<close>

theorem minimize_changes_word_acceptance:
  "DFA_init ab [PyInt 0, PyInt 1, PyInt 2] (PyInt 0) [PyInt 2]
     [(PyInt 0, [(CHR ''a'', PyInt 1)]),
      (PyInt 1, [(CHR ''b'', PyInt 2)]),
      (PyInt 2, [(CHR ''a'', PyInt 2), (CHR ''b'', PyInt 2)])] = Inr spec_example
   \<and> minimize PySink spec_example = Inr minimized_example
   \<and> word_acceptance spec_example [CHR ''b'', CHR ''a''] = Inr False
   \<and> word_acceptance minimized_example [CHR ''b'', CHR ''a''] = Inl KeyError"
proof -
  have "DFA_init ab [PyInt 0, PyInt 1, PyInt 2] (PyInt 0) [PyInt 2]
     [(PyInt 0, [(CHR ''a'', PyInt 1)]),
      (PyInt 1, [(CHR ''b'', PyInt 2)]),
      (PyInt 2, [(CHR ''a'', PyInt 2), (CHR ''b'', PyInt 2)])] = Inr spec_example"
    by code_simp
  moreover have "minimize PySink spec_example = Inr minimized_example"
    by code_simp
  moreover have "word_acceptance spec_example [CHR ''b'', CHR ''a''] = Inr False"
    by code_simp
  moreover have "word_acceptance minimized_example [CHR ''b'', CHR ''a''] = Inl KeyError"
    by code_simp
  ultimately show ?thesis by simp
qed

section \<open>Properties of the store model\<close>

lemma kept_refl: "kept s s"
  by (simp add: kept_def)

lemma kept_trans: "kept s s' \<Longrightarrow> kept s' s'' \<Longrightarrow> kept s s''"
  by (auto simp: kept_def)

lemma prefix_update: "prefix xs ys \<Longrightarrow> length xs \<le> a \<Longrightarrow> prefix xs (ys[a := v])"
  by (auto simp: prefix_def list_update_append)

lemma kept_alloc_dict: "kept s0 s \<Longrightarrow> kept s0 (snd (alloc_dict v s))"
  and kept_alloc_row: "kept s0 s \<Longrightarrow> kept s0 (snd (alloc_row w s))"
  and kept_alloc_set: "kept s0 s \<Longrightarrow> kept s0 (snd (alloc_set x s))"
  by (auto simp: kept_def alloc_dict_def alloc_row_def alloc_set_def)

lemma kept_write_dict: "kept s0 s \<Longrightarrow> length (dicts s0) \<le> a \<Longrightarrow> kept s0 (write_dict a v s)"
  and kept_write_row: "kept s0 s \<Longrightarrow> length (rows s0) \<le> b \<Longrightarrow> kept s0 (write_row b w s)"
  and kept_write_set: "kept s0 s \<Longrightarrow> length (sets s0) \<le> c \<Longrightarrow> kept s0 (write_set c x s)"
  by (auto simp: kept_def write_dict_def write_row_def write_set_def prefix_update)

lemma kept_lengths:
  "kept s0 s \<Longrightarrow> length (dicts s0) \<le> length (dicts s) \<and> length (rows s0) \<le> length (rows s)
     \<and> length (sets s0) \<le> length (sets s)"
  by (auto simp: kept_def prefix_length_le)

lemma deepcopy_items_kept:
  "deepcopy_items items memo s = (out, s') \<Longrightarrow> kept s0 s \<Longrightarrow>
   \<forall>(r, r')\<in>set memo. length (rows s0) \<le> r' \<Longrightarrow>
   kept s0 s' \<and> (\<forall>(k, r')\<in>set out. length (rows s0) \<le> r') \<and> dicts s' = dicts s"
proof (induction items memo s arbitrary: out s' rule: deepcopy_items.induct)
  case (1 memo s)
  then show ?case by simp
next
  case (2 k r items memo s)
  show ?case
  proof (cases "map_of memo r")
    case (Some r')
    obtain out1 s1 where rec: "deepcopy_items items memo s = (out1, s1)" by force
    from "2.prems"(1) Some rec have o: "out = (k, r') # out1" "s' = s1" by auto
    from Some have "(r, r') \<in> set memo" by (rule map_of_SomeD)
    with "2.prems"(3) have "length (rows s0) \<le> r'" by auto
    with "2.IH"(2)[OF Some rec "2.prems"(2,3)] o show ?thesis by simp
  next
    case None
    let ?r' = "length (rows s)"
    let ?s1 = "s\<lparr>rows := rows s @ [get_row s r]\<rparr>"
    have al: "alloc_row (get_row s r) s = (?r', ?s1)" by (simp add: alloc_row_def)
    obtain out1 s2 where rec: "deepcopy_items items ((r, ?r') # memo) ?s1 = (out1, s2)" by force
    from "2.prems"(1) None rec have o: "out = (k, ?r') # out1" "s' = s2"
      by (auto simp: alloc_row_def)
    from kept_lengths[OF "2.prems"(2)] have fresh: "length (rows s0) \<le> ?r'" by simp
    have k1: "kept s0 ?s1" using kept_alloc_row[OF "2.prems"(2), of "get_row s r"]
      by (simp add: alloc_row_def)
    have m1: "\<forall>(r, r')\<in>set ((r, ?r') # memo). length (rows s0) \<le> r'"
      using "2.prems"(3) fresh by auto
    from "2.IH"(1)[OF None refl al[symmetric] rec k1 m1] o fresh show ?thesis by simp
  qed
qed

lemma deepcopy_dict_kept:
  assumes "deepcopy_dict a s = (tr, s')" and "kept s0 s"
  shows "kept s0 s' \<and> length (dicts s0) \<le> tr \<and>
         (\<forall>(k, r')\<in>set (get_dict s' tr). length (rows s0) \<le> r')"
proof -
  obtain out s1 where di: "deepcopy_items (get_dict s a) [] s = (out, s1)" by force
  from deepcopy_items_kept[OF di assms(2)]
  have k1: "kept s0 s1" and fr: "\<forall>(k, r')\<in>set out. length (rows s0) \<le> r'" by auto
  from assms(1) di have tr: "tr = length (dicts s1)" and s': "s' = s1\<lparr>dicts := dicts s1 @ [out]\<rparr>"
    by (auto simp: deepcopy_dict_def alloc_dict_def)
  have "kept s0 s'" using kept_alloc_dict[OF k1, of out] by (simp add: alloc_dict_def s')
  moreover have "get_dict s' tr = out" by (simp add: get_dict_def tr s')
  moreover have "length (dicts s0) \<le> tr" using kept_lengths[OF k1] tr by simp
  ultimately show ?thesis using fr by simp
qed

lemma complete_row_s_kept:
  "complete_row_s sink tr state r syms s = (res, s') \<Longrightarrow> kept s0 s \<Longrightarrow>
   \<forall>(k, r')\<in>set (get_dict s tr). length (rows s0) \<le> r' \<Longrightarrow>
   kept s0 s' \<and> dicts s' = dicts s"
proof (induction sink tr state r syms s rule: complete_row_s.induct)
  case (1 sink tr state r s)
  then show ?case by simp
next
  case (2 sink tr state r action rest s)
  show ?case
  proof (cases "map_of (get_row s r) action = None")
    case False
    with "2.prems" "2.IH"(2) show ?thesis by simp
  next
    case True
    show ?thesis
    proof (cases "map_of (get_dict s tr) state")
      case None
      with True "2.prems" show ?thesis by simp
    next
      case (Some r')
      let ?s1 = "write_row r' (AList.update action sink (get_row s r')) s"
      from Some have "(state, r') \<in> set (get_dict s tr)" by (rule map_of_SomeD)
      with "2.prems"(3) have fresh: "length (rows s0) \<le> r'" by auto
      have k1: "kept s0 ?s1" by (rule kept_write_row[OF "2.prems"(2) fresh])
      have d1: "dicts ?s1 = dicts s" by (simp add: write_row_def)
      then have g1: "get_dict ?s1 tr = get_dict s tr" by (simp add: get_dict_def)
      from "2.prems"(1) True Some
      have "complete_row_s sink tr state r rest ?s1 = (res, s')" by simp
      from "2.IH"(1)[OF True Some this k1] "2.prems"(3) g1 d1 show ?thesis by simp
    qed
  qed
qed

lemma complete_items_s_kept:
  "complete_items_s sink syms tr items s = (res, s') \<Longrightarrow> kept s0 s \<Longrightarrow>
   \<forall>(k, r')\<in>set (get_dict s tr). length (rows s0) \<le> r' \<Longrightarrow>
   kept s0 s' \<and> dicts s' = dicts s"
proof (induction sink syms tr items s rule: complete_items_s.induct)
  case (1 sink syms tr s)
  then show ?case by simp
next
  case (2 sink syms tr state r items s)
  obtain res1 s1 where row: "complete_row_s sink tr state r syms s = (res1, s1)" by force
  from complete_row_s_kept[OF row "2.prems"(2,3)] have k1: "kept s0 s1" and d1: "dicts s1 = dicts s"
    by auto
  show ?case
  proof (cases res1)
    case (Inl e)
    with "2.prems"(1) row k1 d1 show ?thesis by simp
  next
    case (Inr u)
    with "2.prems"(1) row have rec: "complete_items_s sink syms tr items s1 = (res, s')" by simp
    from d1 have "get_dict s1 tr = get_dict s tr" by (simp add: get_dict_def)
    with "2.prems"(3) have "\<forall>(k, r')\<in>set (get_dict s1 tr). length (rows s0) \<le> r'" by simp
    from "2.IH"[OF row[symmetric] _ rec k1 this] Inr d1 show ?thesis by simp
  qed
qed

lemma DFA_init_s_store: "DFA_init_s al sts ini acc tf s = (res, s') \<Longrightarrow> s' = s"
  by (auto simp: DFA_init_s_def split: sum.splits)

lemma complete_s_kept:
  assumes "complete_s sink dfa s = (res, s')"
  shows "kept s s'"
proof -
  obtain tr s1 where dc: "deepcopy_dict (transition_function_ref dfa) s = (tr, s1)" by force
  from deepcopy_dict_kept[OF dc kept_refl]
  have k1: "kept s s1" and fr: "\<forall>(k, r')\<in>set (get_dict s1 tr). length (rows s) \<le> r'" by auto
  obtain res2 s2 where ci: "complete_items_s sink (symbols (alphabet_of dfa)) tr
             (get_dict s1 (transition_function_ref dfa)) s1 = (res2, s2)" by force
  from complete_items_s_kept[OF ci k1 fr] have k2: "kept s s2" by simp
  show ?thesis
  proof (cases res2)
    case (Inl e)
    with assms dc ci k2 show ?thesis by (simp add: complete_s_def)
  next
    case (Inr u)
    let ?s3 = "snd (alloc_set (set_add sink (get_set s2 (states_ref dfa))) s2)"
    let ?s4 = "snd (alloc_dict (get_dict ?s3 tr) ?s3)"
    have k4: "kept s ?s4" by (intro kept_alloc_dict kept_alloc_set k2)
    from assms dc ci Inr obtain sts tf where "DFA_init_s (alphabet_of dfa) sts (initial_state_of dfa)
                (accepting_states_ref dfa) tf ?s4 = (res, s')"
      by (auto simp: complete_s_def Let_def split: prod.splits)
    from DFA_init_s_store[OF this] k4 show ?thesis by simp
  qed
qed

lemma prefix_nth: "prefix xs ys \<Longrightarrow> a < length xs \<Longrightarrow> ys ! a = xs ! a"
  by (auto simp: prefix_def nth_append)

lemma kept_get:
  assumes "kept s s'"
  shows "a < length (sets s) \<Longrightarrow> get_set s' a = get_set s a"
    and "b < length (dicts s) \<Longrightarrow> get_dict s' b = get_dict s b"
    and "c < length (rows s) \<Longrightarrow> get_row s' c = get_row s c"
  using assms kept_lengths[OF assms]
  by (auto simp: kept_def get_set_def get_dict_def get_row_def prefix_nth)

lemma kept_view:
  assumes k: "kept s s'" and v: "valid s d"
  shows "view s' d = view s d"
proof -
  from v have a: "states_ref d < length (sets s)" "accepting_states_ref d < length (sets s)"
    and t: "transition_function_ref d < length (dicts s)"
    and r: "\<forall>(k, r)\<in>set (get_dict s (transition_function_ref d)). r < length (rows s)"
    by (auto simp: valid_def list_all_iff)
  have "read_tf s' (transition_function_ref d) = read_tf s (transition_function_ref d)"
    unfolding read_tf_def kept_get(2)[OF k t]
    using r kept_get(3)[OF k] by auto
  then show ?thesis
    by (simp add: view_def kept_get(1)[OF k a(1)] kept_get(1)[OF k a(2)])
qed

lemma reachable_step_s_kept:
  assumes "reachable_step_s tf zc s = (zn, s')" and "kept s0 s"
  shows "kept s0 s'"
proof -
  let ?s1 = "snd (alloc_set (get_set s zc) s)"
  have k1: "kept s0 ?s1" by (rule kept_alloc_set[OF assms(2)])
  from assms(1) obtain v where "s' = write_set (length (sets s)) v ?s1"
    by (auto simp: reachable_step_s_def alloc_set_def Let_def)
  moreover have "length (sets s0) \<le> length (sets s)" using kept_lengths[OF assms(2)] by simp
  ultimately show ?thesis using kept_write_set[OF k1] by simp
qed

lemma reachable_loop_s_kept:
  "reachable_loop_s tf zc zn s = (z, s') \<Longrightarrow> kept s0 s \<Longrightarrow> kept s0 s'"
proof (induction tf zc zn s rule: reachable_loop_s.induct)
  case (1 tf zc zn s)
  show ?case
  proof (cases "set (get_set s zc) = set (get_set s zn)")
    case True
    with "1.prems" show ?thesis by (simp add: reachable_loop_s.simps[of tf zc zn s])
  next
    case False
    obtain zn' s1 where st: "reachable_step_s tf zn s = (zn', s1)" by force
    from "1.prems"(1) False st have "reachable_loop_s tf zn zn' s1 = (z, s')"
      by (simp add: reachable_loop_s.simps[of tf zc zn s])
    from "1.IH"[OF False st[symmetric] this reachable_step_s_kept[OF st "1.prems"(2)]]
    show ?thesis .
  qed
qed

lemma coreachable_step_s_kept:
  assumes "coreachable_step_s tf sts zc s = (zn, s')" and "kept s0 s"
  shows "kept s0 s'"
proof -
  let ?s1 = "snd (alloc_set (get_set s zc) s)"
  have k1: "kept s0 ?s1" by (rule kept_alloc_set[OF assms(2)])
  from assms(1) obtain v where "s' = write_set (length (sets s)) v ?s1"
    by (auto simp: coreachable_step_s_def alloc_set_def Let_def)
  moreover have "length (sets s0) \<le> length (sets s)" using kept_lengths[OF assms(2)] by simp
  ultimately show ?thesis using kept_write_set[OF k1] by simp
qed

lemma coreachable_loop_s_kept:
  "coreachable_loop_s tf sts zc zn s = (z, s') \<Longrightarrow> kept s0 s \<Longrightarrow> kept s0 s'"
proof (induction tf sts zc zn s rule: coreachable_loop_s.induct)
  case (1 tf sts zc zn s)
  show ?case
  proof (cases "set (get_set s zc) = set (get_set s zn)")
    case True
    with "1.prems" show ?thesis by (simp add: coreachable_loop_s.simps[of tf sts zc zn s])
  next
    case False
    obtain zn' s1 where st: "coreachable_step_s tf sts zn s = (zn', s1)" by force
    from "1.prems"(1) False st have "coreachable_loop_s tf sts zn zn' s1 = (z, s')"
      by (simp add: coreachable_loop_s.simps[of tf sts zc zn s])
    from "1.IH"[OF False st[symmetric] this coreachable_step_s_kept[OF st "1.prems"(2)]]
    show ?thesis .
  qed
qed

lemma store_rows_kept:
  "store_rows tfv s = (out, s') \<Longrightarrow> kept s0 s \<Longrightarrow> kept s0 s' \<and> length (dicts s') = length (dicts s)"
proof (induction tfv arbitrary: s out s')
  case Nil
  then show ?case by simp
next
  case (Cons it tfv)
  obtain k row where it: "it = (k, row)" by (cases it)
  let ?s1 = "snd (alloc_row row s)"
  obtain out1 s2 where rec: "store_rows tfv ?s1 = (out1, s2)" by force
  from Cons.prems(1) rec have s': "s' = s2" by (simp add: it Let_def split: prod.splits)
  have "length (dicts ?s1) = length (dicts s)" by (simp add: alloc_row_def)
  with Cons.IH[OF rec kept_alloc_row[OF Cons.prems(2), of row]] s' show ?case by simp
qed

lemma store_tf_kept:
  assumes "store_tf tfv s = (a, s')" and "kept s0 s"
  shows "kept s0 s'"
proof -
  let ?s1 = "snd (alloc_dict [] s)"
  obtain out s2 where sr: "store_rows tfv ?s1 = (out, s2)" by force
  from store_rows_kept[OF sr kept_alloc_dict[OF assms(2)]] have k2: "kept s0 s2" by simp
  from assms(1) sr have "s' = write_dict (length (dicts s)) out s2"
    by (auto simp: store_tf_def alloc_dict_def Let_def split: prod.splits)
  moreover have "length (dicts s0) \<le> length (dicts s)" using kept_lengths[OF assms(2)] by simp
  ultimately show ?thesis using kept_write_dict[OF k2] by simp
qed

lemma reachable_s_kept: "kept s (snd (reachable_s dfa s))"
proof -
  let ?s1 = "snd (alloc_set [] s)"
  let ?s2 = "snd (alloc_set [] ?s1)"
  let ?zn0 = "fst (alloc_set [] ?s1)"
  let ?s3 = "write_set ?zn0 (set_add (initial_state_of dfa) (get_set ?s2 ?zn0)) ?s2"
  have k2: "kept s ?s2" by (intro kept_alloc_set kept_refl)
  have "length (sets s) \<le> ?zn0" by (simp add: alloc_set_def)
  then have k3: "kept s ?s3" by (rule kept_write_set[OF k2])
  obtain z s4 where lp: "reachable_loop_s (transition_function_ref dfa) (fst (alloc_set [] s)) ?zn0 ?s3 = (z, s4)"
    by force
  from reachable_loop_s_kept[OF lp k3] have k4: "kept s s4" .
  obtain ntf s5 where st: "store_tf (restrict_transitions (read_tf s4 (transition_function_ref dfa))
                         (get_set s4 z)) s4 = (ntf, s5)" by force
  from store_tf_kept[OF st k4] have k5: "kept s s5" .
  let ?s6 = "snd (alloc_set (filter (\<lambda>st. st \<in> set (get_set s5 (accepting_states_ref dfa)))
                          (get_set s5 z)) s5)"
  have k6: "kept s ?s6" by (rule kept_alloc_set[OF k5])
  obtain res s7 where r: "reachable_s dfa s = (res, s7)" by force
  then obtain nf where "DFA_init_s (alphabet_of dfa) z (initial_state_of dfa) nf ntf ?s6 = (res, s7)"
    using lp st by (auto simp: reachable_s_def Let_def split: prod.splits)
  from DFA_init_s_store[OF this] k6 r show ?thesis by simp
qed

lemma coreachable_s_kept: "kept s (snd (coreachable_s dfa s))"
proof -
  let ?s1 = "snd (alloc_set [] s)"
  let ?s2 = "snd (alloc_set [] ?s1)"
  let ?s3 = "snd (alloc_set (get_set ?s2 (accepting_states_ref dfa)) ?s2)"
  let ?zn0 = "fst (alloc_set (get_set ?s2 (accepting_states_ref dfa)) ?s2)"
  have k3: "kept s ?s3" by (intro kept_alloc_set kept_refl)
  obtain z s4 where lp: "coreachable_loop_s (transition_function_ref dfa) (states_ref dfa)
      (fst (alloc_set [] s)) ?zn0 ?s3 = (z, s4)"
    by force
  from coreachable_loop_s_kept[OF lp k3] have k4: "kept s s4" .
  obtain ntf s5 where st: "store_tf (restrict_transitions (read_tf s4 (transition_function_ref dfa))
                         (get_set s4 z)) s4 = (ntf, s5)" by force
  from store_tf_kept[OF st k4] have k5: "kept s s5" .
  obtain res s7 where r: "coreachable_s dfa s = (res, s7)" by force
  then obtain ini where "DFA_init_s (alphabet_of dfa) z ini (accepting_states_ref dfa) ntf s5 = (res, s7)"
    using lp st by (auto simp: coreachable_s_def Let_def split: prod.splits)
  from DFA_init_s_store[OF this] k5 r show ?thesis by simp
qed

lemma trim_s_kept: "kept s (snd (trim_s dfa s))"
proof -
  obtain res s1 where r: "reachable_s dfa s = (res, s1)" by force
  with reachable_s_kept[of s dfa] have k1: "kept s s1" by simp
  show ?thesis
  proof (cases res)
    case (Inl e)
    with r k1 show ?thesis by (simp add: trim_s_def)
  next
    case (Inr d1)
    with r have "trim_s dfa s = coreachable_s d1 s1" by (simp add: trim_s_def)
    with kept_trans[OF k1 coreachable_s_kept[of s1 d1]] show ?thesis by simp
  qed
qed


lemma DFA_init_s_snd: "snd (DFA_init_s al sts ini acc tf s) = s"
  by (simp add: DFA_init_s_def split: sum.splits)

lemma minimize_s_kept: "kept s (snd (minimize_s sink dfa s))"
proof -
  obtain res1 s1 where c: "complete_s sink dfa s = (res1, s1)" by force
  from complete_s_kept[OF c] have k1: "kept s s1" .
  show ?thesis
  proof (cases res1)
    case (Inl e)
    with c k1 show ?thesis by (simp add: minimize_s_def)
  next
    case d1: (Inr d1)
    show ?thesis
    proof (cases "minimize_loop (view s1 d1) [] (initial_pairs (view s1 d1))")
      case (Inl e)
      with c d1 k1 show ?thesis by (simp add: minimize_s_def)
    next
      case z: (Inr z)
      define s2c where "s2c = state2equiv_class z"
      define c2n where "c2n = equiv_class2new_state (equivalence_classes s2c)"
      define new_of where "new_of = new_state_of s2c c2n"
      show ?thesis
      proof (cases "quotient_transitions new_of (read_tf s1 (transition_function_ref d1)) []")
        case (Inl e)
        with c d1 z k1 show ?thesis
          by (simp add: minimize_s_def Let_def new_of_def c2n_def s2c_def)
      next
        case qt: (Inr ntf)
        obtain a s2 where st: "store_tf ntf s1 = (a, s2)" by force
        from store_tf_kept[OF st k1] have k2: "kept s s2" .
        show ?thesis
        proof (cases "new_final_states new_of (get_set s2 (accepting_states_ref d1)) []")
          case (Inl e)
          with c d1 z qt st k2 show ?thesis
            by (simp add: minimize_s_def Let_def new_of_def c2n_def s2c_def)
        next
          case nf: (Inr finals)
          let ?s3 = "snd (alloc_set finals s2)"
          let ?s4 = "snd (alloc_set (map snd c2n) ?s3)"
          have k4: "kept s ?s4" by (intro kept_alloc_set k2)
          have "snd (minimize_s sink dfa s) = ?s4"
            using c d1 z qt st nf
            by (simp add: minimize_s_def Let_def new_of_def c2n_def s2c_def DFA_init_s_snd
                split: prod.splits sum.splits)
          with k4 show ?thesis by simp
        qed
      qed
    qed
  qed
qed

text \<open>
  Claim C9. No transformation changes its argument. For an automaton object whose
  references are allocated in the store \<open>s\<close>, after \<^verbatim>\<open>complete\<close>, \<^verbatim>\<open>minimize\<close>,
  \<^verbatim>\<open>reachable\<close>, \<^verbatim>\<open>coreachable\<close> or \<^verbatim>\<open>trim\<close> (whether the call returns an automaton or
  raises) every object that was in \<open>s\<close> is unchanged, and the argument still stands for
  the same alphabet, states, initial state, accepting states and transition function, the
  rows of the transition dict included.
\<close>

theorem transformations_keep_input:
  assumes "valid s dfa"
  shows "kept s (snd (complete_s sink dfa s)) \<and> view (snd (complete_s sink dfa s)) dfa = view s dfa
       \<and> kept s (snd (minimize_s sink dfa s)) \<and> view (snd (minimize_s sink dfa s)) dfa = view s dfa
       \<and> kept s (snd (reachable_s dfa s)) \<and> view (snd (reachable_s dfa s)) dfa = view s dfa
       \<and> kept s (snd (coreachable_s dfa s)) \<and> view (snd (coreachable_s dfa s)) dfa = view s dfa
       \<and> kept s (snd (trim_s dfa s)) \<and> view (snd (trim_s dfa s)) dfa = view s dfa"
proof -
  have c: "kept s (snd (complete_s sink dfa s))"
    by (rule complete_s_kept[of sink dfa s "fst (complete_s sink dfa s)"]) simp
  show ?thesis
    using c minimize_s_kept reachable_s_kept coreachable_s_kept trim_s_kept
      kept_view[OF _ assms]
    by blast
qed

theorem transformations_keep_input_witness:
  "valid example_store example_obj \<and> view example_store example_obj = spec_example
   \<and> view (snd (complete_s PySink example_obj example_store)) example_obj = spec_example
   \<and> view (snd (minimize_s PySink example_obj example_store)) example_obj = spec_example
   \<and> view (snd (reachable_s example_obj example_store)) example_obj = spec_example
   \<and> view (snd (coreachable_s example_obj example_store)) example_obj = spec_example
   \<and> view (snd (trim_s example_obj example_store)) example_obj = spec_example
   \<and> (case complete_s PySink example_obj example_store of
         (Inr d, s') \<Rightarrow> Inr (view s' d) = complete PySink spec_example
       | (Inl e, s') \<Rightarrow> False)
   \<and> (case minimize_s PySink example_obj example_store of
         (Inr d, s') \<Rightarrow> Inr (view s' d) = minimize PySink spec_example
       | (Inl e, s') \<Rightarrow> False)
   \<and> (case reachable_s example_obj example_store of
         (Inr d, s') \<Rightarrow> Inr (view s' d) = reachable spec_example
       | (Inl e, s') \<Rightarrow> False)
   \<and> (case coreachable_s example_obj example_store of
         (Inr d, s') \<Rightarrow> Inr (view s' d) = coreachable spec_example
       | (Inl e, s') \<Rightarrow> False)
   \<and> (case trim_s example_obj example_store of
         (Inr d, s') \<Rightarrow> Inr (view s' d) = trim spec_example
       | (Inl e, s') \<Rightarrow> False)"
proof -
  have v: "valid example_store example_obj" by code_simp
  have e: "view example_store example_obj = spec_example" by code_simp
  have r1: "(case complete_s PySink example_obj example_store of
         (Inr d, s') \<Rightarrow> Inr (view s' d) = complete PySink spec_example
       | (Inl e, s') \<Rightarrow> False)" by code_simp
  have r2: "(case minimize_s PySink example_obj example_store of
         (Inr d, s') \<Rightarrow> Inr (view s' d) = minimize PySink spec_example
       | (Inl e, s') \<Rightarrow> False)" by code_simp
  have r3: "(case reachable_s example_obj example_store of
         (Inr d, s') \<Rightarrow> Inr (view s' d) = reachable spec_example
       | (Inl e, s') \<Rightarrow> False)" by code_simp
  have r4: "(case coreachable_s example_obj example_store of
         (Inr d, s') \<Rightarrow> Inr (view s' d) = coreachable spec_example
       | (Inl e, s') \<Rightarrow> False)" by code_simp
  have r5: "(case trim_s example_obj example_store of
         (Inr d, s') \<Rightarrow> Inr (view s' d) = trim spec_example
       | (Inl e, s') \<Rightarrow> False)" by code_simp
  from transformations_keep_input[OF v, of PySink] v e r1 r2 r3 r4 r5 show ?thesis by simp
qed

end
